theory Spec2Isabelle
  imports Main
begin

section \<open>JavaScript values and array primitives used by the broker\<close>

text \<open>
  Cluster worker ids are the positive integers the clustering facility hands out. The
  broker stores \<^verbatim>\<open>worker.id + ""\<close>, and \<^verbatim>\<open>for (let id in Cluster.workers)\<close>
  enumerates the same decimal strings, so the model renders an id in decimal.
\<close>

definition digit_char :: "nat \<Rightarrow> char" where
  "digit_char d = char_of (48 + d)"

fun id_str :: "nat \<Rightarrow> string" where
  "id_str n = (if n < 10 then [digit_char n] else id_str (n div 10) @ [digit_char (n mod 10)])"

declare id_str.simps [simp del]

text \<open>
  \<^verbatim>\<open>Array.prototype.indexOf\<close>: the first index holding the element (strict equality,
  which on strings is equality of contents), or -1.
\<close>

fun indexOf :: "'a list \<Rightarrow> 'a \<Rightarrow> int" where
  "indexOf [] x = - 1"
| "indexOf (y # ys) x =
     (if y = x then 0 else (let r = indexOf ys x in if r < 0 then - 1 else r + 1))"

text \<open>
  \<^verbatim>\<open>Array.prototype.splice(start, deleteCount)\<close> with no inserted items: a negative
  start counts from the end, the start is clamped to the array, and the delete count is
  clamped to what is left. The model returns the array as it is after the call.
\<close>

definition splice :: "'a list \<Rightarrow> int \<Rightarrow> int \<Rightarrow> 'a list" where
  "splice xs start deleteCount =
     (let len = int (length xs);
          actualStart = (if start < 0 then max (len + start) 0 else min start len);
          actualDeleteCount = min (max deleteCount 0) (len - actualStart)
      in take (nat actualStart) xs @ drop (nat (actualStart + actualDeleteCount)) xs)"

text \<open>
  The exit observer's removal, line 92 of the broker:
  \<^verbatim>\<open>this._workerIds[this.type].splice(this._workerIds[this.type].indexOf(id), 1)\<close>.
\<close>

definition remove_id :: "string list \<Rightarrow> string \<Rightarrow> string list" where
  "remove_id ids i = splice ids (indexOf ids i) 1"

section \<open>Messages on the process channel\<close>

text \<open>
  A payload as it arrives over the IPC channel: a JSON value. Numbers are carried
  opaquely; the broker never inspects them.
\<close>

datatype payload =
    JNull
  | JBool bool
  | JNum int
  | JStr string
  | JArr "payload list"
  | JObj "(string \<times> payload) list"

datatype error = TypeError | ConfigurationError string

text \<open>\<^verbatim>\<open>typeof msg === "object"\<close>: true of objects, arrays and \<^verbatim>\<open>null\<close>.\<close>

fun is_object :: "payload \<Rightarrow> bool" where
  "is_object JNull = True"
| "is_object (JArr xs) = True"
| "is_object (JObj kvs) = True"
| "is_object (JBool b) = False"
| "is_object (JNum n) = False"
| "is_object (JStr t) = False"

text \<open>
  \<^verbatim>\<open>msg.type\<close>: reading a property of \<^verbatim>\<open>null\<close> throws a TypeError; an object
  yields the property or \<^verbatim>\<open>undefined\<close> (\<open>None\<close>); arrays and primitives have no
  such property.
\<close>

fun get_type :: "payload \<Rightarrow> error + payload option" where
  "get_type JNull = Inl TypeError"
| "get_type (JObj kvs) = Inr (map_of kvs ''type'')"
| "get_type (JArr xs) = Inr None"
| "get_type (JBool b) = Inr None"
| "get_type (JNum n) = Inr None"
| "get_type (JStr t) = Inr None"

section \<open>The process: clustering facility, timers, application, broker\<close>

text \<open>
  A worker handle of the clustering facility, with the fields the broker reads or
  writes. \<open>wired\<close> records that this broker's \<^verbatim>\<open>_spawnWorker\<close> attached its
  observers to the handle; \<open>sent\<close>, \<open>disconnects\<close> and \<open>kills\<close> record the calls
  of \<^verbatim>\<open>worker.send\<close>, \<^verbatim>\<open>worker.disconnect\<close> and \<^verbatim>\<open>worker.kill\<close>.
\<close>

record worker =
  wid :: nat
  worker_type :: string
  worker_env :: string
  wired :: bool
  exitedAfterDisconnect :: "bool option"
  disconnectTimer :: "nat option"
  dead :: bool
  sent :: "payload list"
  disconnects :: nat
  kills :: nat

datatype event =
    WorkerEnded string "int option" "string option" nat
  | WorkerDeath string "int option" "string option" nat
  | WorkerOps payload nat
  | WorkerMessage payload nat

datatype report =
    CrashReport string string string "int option" "string option"
  | BounceReport string
  | WorkerErrorReport string string

datatype timer_action = DeadlineKill nat | FollowupKill nat | RecycleTick

record timer =
  tid :: nat
  due :: nat
  act :: timer_action
  every :: "nat option"

text \<open>
  What exists before a broker is constructed: the clustering facility (\<open>nextId\<close>, the
  handle objects, and \<^verbatim>\<open>Cluster.workers\<close> as the list of registered ids in
  enumeration order), the event loop's clock and timers, and the application context
  (\<^verbatim>\<open>app.gracefulShutdown\<close>, \<^verbatim>\<open>app.currentEnvironment\<close>, and what was handed to
  \<^verbatim>\<open>app.report\<close>).
\<close>

record host =
  nextId :: nat
  handles :: "nat \<rightharpoonup> worker"
  registry :: "nat list"
  now :: nat
  nextTimer :: nat
  timers :: "timer list"
  gracefulShutdown :: bool
  currentEnvironment :: string
  reports :: "report list"

text \<open>The process with one broker in it; \<open>emitted\<close> is what the broker emitted.\<close>

record sys = host +
  broker_type :: string
  workerCount :: int
  recycleRate :: int
  debug :: bool
  drainOpen :: bool
  workerIds :: "string list"
  emitted :: "event list"

record options =
  opt_workerCount :: "int option"
  opt_recycleRate :: "int option"
  opt_debug :: "bool option"

subsection \<open>The facility and the event loop\<close>

definition new_handle :: "nat \<Rightarrow> string \<Rightarrow> string \<Rightarrow> worker" where
  "new_handle i wt e =
     \<lparr>wid = i, worker_type = wt, worker_env = e, wired = False,
      exitedAfterDisconnect = None, disconnectTimer = None, dead = False,
      sent = [], disconnects = 0, kills = 0\<rparr>"

text \<open>\<^verbatim>\<open>Cluster.fork(env)\<close>: a fresh id, a new handle, registered under its id.\<close>

definition fork :: "string \<Rightarrow> string \<Rightarrow> sys \<Rightarrow> worker \<times> sys" where
  "fork wt e s =
     (let w = new_handle (nextId s) wt e
      in (w, s\<lparr>nextId := Suc (nextId s),
                handles := (handles s)(nextId s \<mapsto> w),
                registry := registry s @ [nextId s]\<rparr>))"

text \<open>\<^verbatim>\<open>Cluster.workers[id]\<close> for a key string.\<close>

definition lookup_worker :: "sys \<Rightarrow> string \<Rightarrow> worker option" where
  "lookup_worker s k =
     (case find (\<lambda>i. id_str i = k) (registry s) of
        None \<Rightarrow> None
      | Some i \<Rightarrow> handles s i)"

definition upd_handle :: "nat \<Rightarrow> (worker \<Rightarrow> worker) \<Rightarrow> sys \<Rightarrow> sys" where
  "upd_handle i f s = s\<lparr>handles := (handles s)(i := map_option f (handles s i))\<rparr>"

definition setTimeout :: "timer_action \<Rightarrow> nat \<Rightarrow> sys \<Rightarrow> nat \<times> sys" where
  "setTimeout a d s =
     (nextTimer s,
      s\<lparr>nextTimer := Suc (nextTimer s),
        timers := timers s @ [\<lparr>tid = nextTimer s, due = now s + d, act = a, every = None\<rparr>]\<rparr>)"

definition setInterval :: "timer_action \<Rightarrow> nat \<Rightarrow> sys \<Rightarrow> nat \<times> sys" where
  "setInterval a d s =
     (nextTimer s,
      s\<lparr>nextTimer := Suc (nextTimer s),
        timers := timers s @ [\<lparr>tid = nextTimer s, due = now s + d, act = a, every = Some d\<rparr>]\<rparr>)"

definition clearTimeout :: "nat \<Rightarrow> sys \<Rightarrow> sys" where
  "clearTimeout t s = s\<lparr>timers := filter (\<lambda>x. tid x \<noteq> t) (timers s)\<rparr>"

definition emit :: "event \<Rightarrow> sys \<Rightarrow> sys" where
  "emit e s = s\<lparr>emitted := emitted s @ [e]\<rparr>"

definition report :: "report \<Rightarrow> sys \<Rightarrow> sys" where
  "report r s = s\<lparr>reports := reports s @ [r]\<rparr>"

definition kill :: "nat \<Rightarrow> sys \<Rightarrow> sys" where
  "kill i s = upd_handle i (\<lambda>h. h\<lparr>kills := Suc (kills h)\<rparr>) s"

section \<open>The broker\<close>

text \<open>
  \<^verbatim>\<open>_log\<close> only writes to the console when \<open>debug\<close> is set and changes nothing the
  broker reads afterwards; it is left out of the model.
\<close>

subsection \<open>Observers attached by \<^verbatim>\<open>_spawnWorker\<close>\<close>

text \<open>
  \<^verbatim>\<open>_spawnWorker\<close> (lines 78-150): fork a worker typed with the broker's type and the
  application's environment, push its id as a string, attach the observers.
\<close>

definition spawnWorker :: "sys \<Rightarrow> sys" where
  "spawnWorker s =
     (let (w, s1) = fork (broker_type s) (currentEnvironment s) s
      in s1\<lparr>handles := (handles s1)(wid w \<mapsto> w\<lparr>wired := True\<rparr>),
             workerIds := workerIds s1 @ [id_str (wid w)]\<rparr>)"

text \<open>
  The exit observer (lines 86-112). \<open>h\<close> is the handle the closure holds, as it is when
  the event fires. \<open>emit\<close> records the event; what the listeners do on top of it is
  added by \<open>exit_observer\<close> below.
\<close>

definition on_exit :: "worker \<Rightarrow> int option \<Rightarrow> string option \<Rightarrow> sys \<Rightarrow> sys" where
  "on_exit h code signal s =
     (let i = id_str (wid h);
          s1 = s\<lparr>workerIds := remove_id (workerIds s) i\<rparr>
      in if \<not> gracefulShutdown s1 \<and> \<not> drainOpen s1 then
           spawnWorker
             (if exitedAfterDisconnect h = Some True
              then emit (WorkerEnded i code signal (wid h)) s1
              else emit (WorkerDeath i code signal (wid h))
                     (report (CrashReport (broker_type s1 @ '' worker id='' @ id_str (wid h) @ '' died!'')
                                (broker_type s1) i code signal) s1))
         else emit (WorkerEnded i code signal (wid h)) s1)"

text \<open>The error observer (lines 116-118).\<close>

definition on_error :: "worker \<Rightarrow> string \<Rightarrow> sys \<Rightarrow> sys" where
  "on_error h err s = report (WorkerErrorReport (broker_type s @ '': Worker error!'') err) s"

text \<open>
  The disconnect observer (lines 121-138): clear the pending deadline if the handle
  carries one, then schedule the follow-up after 1000 ms.
\<close>

definition on_disconnect :: "worker \<Rightarrow> sys \<Rightarrow> sys" where
  "on_disconnect h s =
     (let s1 = (case disconnectTimer h of Some t \<Rightarrow> clearTimeout t s | None \<Rightarrow> s)
      in snd (setTimeout (FollowupKill (wid h)) 1000 s1))"

text \<open>
  The message observer (lines 141-149). The conjunction short-cuts, so \<^verbatim>\<open>msg.type\<close>
  is read only when \<^verbatim>\<open>typeof msg === "object"\<close>.
\<close>

definition on_message :: "worker \<Rightarrow> payload \<Rightarrow> sys \<Rightarrow> error + sys" where
  "on_message h msg s =
     (if is_object msg then
        (case get_type msg of
           Inl e \<Rightarrow> Inl e
         | Inr t \<Rightarrow>
             if t = Some (JStr ''ops'') then Inr (emit (WorkerOps msg (wid h)) s)
             else Inr (emit (WorkerMessage msg (wid h)) s))
      else Inr (emit (WorkerMessage msg (wid h)) s))"

subsection \<open>Timer callbacks\<close>

text \<open>
  The deadline callback of \<^verbatim>\<open>_bounceWorker\<close> (lines 168-175): \<^verbatim>\<open>worker\<close> is a bound
  object, so the guard holds and the handle is killed. The follow-up of the disconnect
  observer (lines 130-136) kills only a handle that is not dead.
\<close>

definition deadline_expired :: "nat \<Rightarrow> sys \<Rightarrow> sys" where
  "deadline_expired i s = kill i s"

definition followup :: "nat \<Rightarrow> sys \<Rightarrow> sys" where
  "followup i s =
     (case handles s i of
        None \<Rightarrow> s
      | Some h \<Rightarrow> if \<not> dead h then kill i s else s)"

subsection \<open>Bounce, recycle, drain, resume\<close>

text \<open>
  \<^verbatim>\<open>_bounceWorker(id)\<close> (lines 157-185). When \<^verbatim>\<open>Cluster.workers[id]\<close> is undefined,
  reading its \<^verbatim>\<open>id\<close> throws; the exception is caught and reported. Otherwise: send the
  directive, arm the 2000 ms deadline and keep its handle on the worker, disconnect.
  \<^verbatim>\<open>worker.disconnect()\<close> of the facility marks the handle as exiting after disconnect
  and drops the worker from \<^verbatim>\<open>Cluster.workers\<close> at once.
\<close>

definition SHUTDOWN_DIRECTIVE :: payload where
  "SHUTDOWN_DIRECTIVE = JStr ''suicide''"

definition bounceWorker :: "string \<Rightarrow> sys \<Rightarrow> sys" where
  "bounceWorker k s =
     (case lookup_worker s k of
        None \<Rightarrow> report (BounceReport ''Could not bounce worker gracefully, probably a race?'') s
      | Some w \<Rightarrow>
          (let s1 = upd_handle (wid w) (\<lambda>h. h\<lparr>sent := sent h @ [SHUTDOWN_DIRECTIVE]\<rparr>) s;
               (t, s2) = setTimeout (DeadlineKill (wid w)) 2000 s1;
               s3 = upd_handle (wid w) (\<lambda>h. h\<lparr>disconnectTimer := Some t\<rparr>) s2;
               s4 = upd_handle (wid w)
                      (\<lambda>h. h\<lparr>disconnects := Suc (disconnects h), exitedAfterDisconnect := Some True\<rparr>) s3
           in s4\<lparr>registry := removeAll (wid w) (registry s4)\<rparr>))"

text \<open>
  \<^verbatim>\<open>recycleWorkers()\<close> (lines 190-199). \<^verbatim>\<open>for (let id in Cluster.workers)\<close> visits
  the keys registered when the loop starts, except a key deleted before its turn;
  \<^verbatim>\<open>hasOwnProperty\<close> holds of a key that is still registered. A key that fails either
  test is only logged.
\<close>

definition recycleWorkers :: "sys \<Rightarrow> sys" where
  "recycleWorkers s =
     fold (\<lambda>k s'. if k \<in> set (map id_str (registry s')) \<and> 0 \<le> indexOf (workerIds s') k
                    then bounceWorker k s' else s')
          (map id_str (registry s)) s"

definition drainWorkers :: "sys \<Rightarrow> sys" where
  "drainWorkers s = recycleWorkers (s\<lparr>drainOpen := True\<rparr>)"

text \<open>
  The spawning loop shared by \<^verbatim>\<open>_init\<close> (lines 65-67) and \<^verbatim>\<open>resumeWorkers\<close>
  (lines 216-218): \<^verbatim>\<open>for (let i = start; i < this.workerCount; i++) this._spawnWorker()\<close>.
\<close>

function spawn_loop :: "int \<Rightarrow> sys \<Rightarrow> sys" where
  "spawn_loop i s = (if i < workerCount s then spawn_loop (i + 1) (spawnWorker s) else s)"
  by pat_completeness auto
termination
  by (relation "measure (\<lambda>(i, s). nat (workerCount s - i))")
     (auto simp: spawnWorker_def fork_def Let_def)

declare spawn_loop.simps [simp del]

definition resumeWorkers :: "sys \<Rightarrow> sys" where
  "resumeWorkers s = (let s1 = s\<lparr>drainOpen := False\<rparr> in spawn_loop (int (length (workerIds s1))) s1)"

subsection \<open>Construction\<close>

text \<open>
  \<^verbatim>\<open>_init\<close> (lines 56-73): an empty id list, the workforce, and the recycling interval
  when a positive rate is configured.
\<close>

definition init :: "sys \<Rightarrow> sys" where
  "init s =
     (let s1 = spawn_loop 0 (s\<lparr>workerIds := []\<rparr>)
      in if recycleRate s1 \<noteq> 0 \<and> recycleRate s1 > 0
         then snd (setInterval RecycleTick (nat (recycleRate s1)) s1)
         else s1)"

text \<open>
  The constructor (lines 17-42). \<open>app\<close> is the name of the constructor of the
  argument's prototype, \<open>None\<close> when the argument is missing, for which
  \<^verbatim>\<open>Object.getPrototypeOf(app || {}).constructor.name\<close> is \<^verbatim>\<open>"Object"\<close>. A missing
  options object counts as an empty one.
\<close>

definition app_constructor_name :: "string option \<Rightarrow> string" where
  "app_constructor_name app = (case app of None \<Rightarrow> ''Object'' | Some n \<Rightarrow> n)"

definition no_options :: options where
  "no_options = \<lparr>opt_workerCount = None, opt_recycleRate = None, opt_debug = None\<rparr>"

definition OkanjoBroker :: "host \<Rightarrow> string option \<Rightarrow> string \<Rightarrow> options option \<Rightarrow> error + sys" where
  "OkanjoBroker p app ty opts0 =
     (if app_constructor_name app \<noteq> ''OkanjoApp'' then
        Inl (ConfigurationError
               (''You need to provide the current app context when making a broker. Got: ''
                  @ app_constructor_name app))
      else
        (let opts = (case opts0 of None \<Rightarrow> no_options | Some x \<Rightarrow> x)
         in Inr (init
              \<lparr>nextId = nextId p, handles = handles p, registry = registry p,
               now = now p, nextTimer = nextTimer p, timers = timers p,
               gracefulShutdown = gracefulShutdown p,
               currentEnvironment = currentEnvironment p, reports = reports p,
               broker_type = ty,
               workerCount = (case opt_workerCount opts of None \<Rightarrow> 1 | Some n \<Rightarrow> n),
               recycleRate = (case opt_recycleRate opts of None \<Rightarrow> 0 | Some r \<Rightarrow> r),
               debug = (case opt_debug opts of None \<Rightarrow> False | Some d \<Rightarrow> d),
               drainOpen = False, workerIds = [], emitted = []\<rparr>)))"

section \<open>Listeners\<close>

text \<open>
  The broker is an event emitter: \<^verbatim>\<open>this.emit\<close> runs the application's listeners at
  once, inside the observer that emits. What a listener can do to the broker is call its
  public methods; \<open>L\<close> gives, for each event, the calls the subscribed listeners make,
  in order. \<open>emit\<close>, \<open>on_exit\<close> and \<open>on_message\<close> above are what the broker
  itself does; \<open>notify\<close>, \<open>exit_observer\<close> and \<open>message_observer\<close> are the same
  lines of the source with the listeners running inside each \<^verbatim>\<open>emit\<close>.
\<close>

datatype api = CallRecycle | CallDrain | CallResume

definition call :: "api \<Rightarrow> sys \<Rightarrow> sys" where
  "call c s =
     (case c of
        CallRecycle \<Rightarrow> recycleWorkers s
      | CallDrain \<Rightarrow> drainWorkers s
      | CallResume \<Rightarrow> resumeWorkers s)"

definition notify :: "(event \<Rightarrow> api list) \<Rightarrow> event \<Rightarrow> sys \<Rightarrow> sys" where
  "notify L e s = fold call (L e) (emit e s)"

text \<open>Line 92 alone: the state in which the listeners of an exit run.\<close>

definition exit_removed :: "worker \<Rightarrow> sys \<Rightarrow> sys" where
  "exit_removed h s = s\<lparr>workerIds := remove_id (workerIds s) (id_str (wid h))\<rparr>"

definition exit_observer ::
  "(event \<Rightarrow> api list) \<Rightarrow> worker \<Rightarrow> int option \<Rightarrow> string option \<Rightarrow> sys \<Rightarrow> sys" where
  "exit_observer L h code signal s =
     (let i = id_str (wid h);
          s1 = exit_removed h s
      in if \<not> gracefulShutdown s1 \<and> \<not> drainOpen s1 then
           spawnWorker
             (if exitedAfterDisconnect h = Some True
              then notify L (WorkerEnded i code signal (wid h)) s1
              else notify L (WorkerDeath i code signal (wid h))
                     (report (CrashReport (broker_type s1 @ '' worker id='' @ id_str (wid h) @ '' died!'')
                                (broker_type s1) i code signal) s1))
         else notify L (WorkerEnded i code signal (wid h)) s1)"

definition message_observer ::
  "(event \<Rightarrow> api list) \<Rightarrow> worker \<Rightarrow> payload \<Rightarrow> sys \<Rightarrow> error + sys" where
  "message_observer L h msg s =
     (if is_object msg then
        (case get_type msg of
           Inl e \<Rightarrow> Inl e
         | Inr t \<Rightarrow>
             if t = Some (JStr ''ops'') then Inr (notify L (WorkerOps msg (wid h)) s)
             else Inr (notify L (WorkerMessage msg (wid h)) s))
      else Inr (notify L (WorkerMessage msg (wid h)) s))"

section \<open>Runs of the process\<close>

text \<open>
  The broker's code runs to completion between events, so a quiescent state is a state
  between two steps. The steps are what the surroundings can do: a worker process ends
  (\<open>Exit\<close>: the facility marks the handle dead, settles \<^verbatim>\<open>exitedAfterDisconnect\<close> to a
  boolean and emits \<^verbatim>\<open>exit\<close>, once per handle), a handle disconnects, errs or delivers
  a message, the application calls one of the three public methods, a due timer fires,
  time passes, some other user of the facility forks a worker, the facility drops a dead
  handle from its registry, the application changes its shutdown flag, and a worker
  disconnects of its own accord (\<open>SelfDisconnect\<close>: the facility marks its handle as
  exiting after disconnect). The observers run with the listeners \<open>L\<close>. A timer never
  fires before it is due, and time does not pass a pending timer: its callback runs
  first.
\<close>

datatype action =
    Exit nat "int option" "string option"
  | Disconnect nat
  | WorkerError nat string
  | Message nat payload
  | RecycleWorkers
  | DrainWorkers
  | ResumeWorkers
  | Fire nat
  | Advance nat
  | ForeignFork string string
  | Unregister nat
  | SetGracefulShutdown bool
  | SelfDisconnect nat

datatype fault = NotEnabled | Uncaught error

definition run_timer :: "timer_action \<Rightarrow> sys \<Rightarrow> sys" where
  "run_timer a s =
     (case a of
        DeadlineKill i \<Rightarrow> deadline_expired i s
      | FollowupKill i \<Rightarrow> followup i s
      | RecycleTick \<Rightarrow> recycleWorkers s)"

definition fire :: "timer \<Rightarrow> sys \<Rightarrow> sys" where
  "fire t s =
     run_timer (act t)
       (case every t of
          None \<Rightarrow> clearTimeout (tid t) s
        | Some d \<Rightarrow> s\<lparr>timers := map (\<lambda>x. if tid x = tid t then x\<lparr>due := due x + d\<rparr> else x) (timers s)\<rparr>)"

definition step :: "(event \<Rightarrow> api list) \<Rightarrow> sys \<Rightarrow> action \<Rightarrow> fault + sys" where
  "step L s a =
     (case a of
        Exit i code signal \<Rightarrow>
          (case handles s i of
             None \<Rightarrow> Inl NotEnabled
           | Some h \<Rightarrow>
               if dead h then Inl NotEnabled
               else
                 (let h' = h\<lparr>dead := True,
                             exitedAfterDisconnect := Some (exitedAfterDisconnect h = Some True)\<rparr>;
                      s1 = s\<lparr>handles := (handles s)(i \<mapsto> h')\<rparr>
                  in Inr (if wired h' then exit_observer L h' code signal s1 else s1)))
      | Disconnect i \<Rightarrow>
          (case handles s i of
             None \<Rightarrow> Inl NotEnabled
           | Some h \<Rightarrow> Inr (if wired h then on_disconnect h s else s))
      | WorkerError i err \<Rightarrow>
          (case handles s i of
             None \<Rightarrow> Inl NotEnabled
           | Some h \<Rightarrow> Inr (if wired h then on_error h err s else s))
      | Message i msg \<Rightarrow>
          (case handles s i of
             None \<Rightarrow> Inl NotEnabled
           | Some h \<Rightarrow>
               if wired h then
                 (case message_observer L h msg s of Inl e \<Rightarrow> Inl (Uncaught e) | Inr s' \<Rightarrow> Inr s')
               else Inr s)
      | RecycleWorkers \<Rightarrow> Inr (recycleWorkers s)
      | DrainWorkers \<Rightarrow> Inr (drainWorkers s)
      | ResumeWorkers \<Rightarrow> Inr (resumeWorkers s)
      | Fire t \<Rightarrow>
          (case find (\<lambda>x. tid x = t) (timers s) of
             None \<Rightarrow> Inl NotEnabled
           | Some x \<Rightarrow> if due x \<le> now s then Inr (fire x s) else Inl NotEnabled)
      | Advance d \<Rightarrow>
          (if list_all (\<lambda>x. now s + d \<le> due x) (timers s) then Inr (s\<lparr>now := now s + d\<rparr>)
           else Inl NotEnabled)
      | ForeignFork wt e \<Rightarrow> Inr (snd (fork wt e s))
      | Unregister i \<Rightarrow>
          (case handles s i of
             None \<Rightarrow> Inl NotEnabled
           | Some h \<Rightarrow>
               if dead h then Inr (s\<lparr>registry := removeAll i (registry s)\<rparr>)
               else Inl NotEnabled)
      | SetGracefulShutdown b \<Rightarrow> Inr (s\<lparr>gracefulShutdown := b\<rparr>)
      | SelfDisconnect i \<Rightarrow>
          (case handles s i of
             None \<Rightarrow> Inl NotEnabled
           | Some h \<Rightarrow>
               if dead h then Inl NotEnabled
               else Inr (s\<lparr>handles := (handles s)(i \<mapsto> h\<lparr>exitedAfterDisconnect := Some True\<rparr>)\<rparr>)))"

fun run :: "(event \<Rightarrow> api list) \<Rightarrow> sys \<Rightarrow> action list \<Rightarrow> fault + sys" where
  "run L s [] = Inr s"
| "run L s (a # as) = (case step L s a of Inl f \<Rightarrow> Inl f | Inr s' \<Rightarrow> run L s' as)"

text \<open>No listener subscribed, and a listener that resumes the pool on every crash.\<close>

definition no_listeners :: "event \<Rightarrow> api list" where
  "no_listeners e = []"


text \<open>
  A freshly loaded facility and event loop: ids start at 1, nothing registered, no timer,
  the application not shutting down.
\<close>

definition pristine :: "string \<Rightarrow> host" where
  "pristine e =
     \<lparr>nextId = 1, handles = Map.empty, registry = [], now = 0, nextTimer = 0, timers = [],
      gracefulShutdown = False, currentEnvironment = e, reports = []\<rparr>"

section \<open>The worker runtime\<close>

text \<open>
  The worker's own process, as \<^verbatim>\<open>OkanjoWorker.js\<close> (lines 1-88) uses it: the title, how
  often \<^verbatim>\<open>init\<close> ran, whether the message listener is attached, which signal handlers
  are attached, and the exit status once \<^verbatim>\<open>process.exit\<close> was called or the default
  action of an unhandled signal ended the process.
\<close>

datatype signal = SIGINT | SIGTERM

datatype exit_status = ExitCode int | KilledBy signal

record process =
  title :: string
  inits :: nat
  message_listener :: bool
  signal_handlers :: "signal list"
  exited :: "exit_status option"

definition worker_init :: "process \<Rightarrow> process" where
  "worker_init p = p\<lparr>inits := Suc (inits p)\<rparr>"

definition shutdown :: "process \<Rightarrow> process" where
  "shutdown p = p\<lparr>exited := Some (ExitCode 0)\<rparr>"

definition unbindProcessSignals :: "process \<Rightarrow> process" where
  "unbindProcessSignals p =
     p\<lparr>signal_handlers := remove1 SIGTERM (remove1 SIGINT (signal_handlers p))\<rparr>"

text \<open>
  \<^verbatim>\<open>prepareForShutdown\<close> (lines 71-79) declares no parameter; whatever the caller passes
  is dropped.
\<close>

definition prepareForShutdown :: "payload list \<Rightarrow> process \<Rightarrow> process" where
  "prepareForShutdown args p = shutdown (unbindProcessSignals p)"

definition bindProcessSignals :: "process \<Rightarrow> process" where
  "bindProcessSignals p = p\<lparr>signal_handlers := signal_handlers p @ [SIGINT, SIGTERM]\<rparr>"

text \<open>The listener of lines 26-30 and the two handlers of lines 48-53.\<close>

definition message_handler :: "payload \<Rightarrow> process \<Rightarrow> process" where
  "message_handler message p = (if message = JStr ''suicide'' then prepareForShutdown [] p else p)"

definition signal_handler :: "signal \<Rightarrow> process \<Rightarrow> process" where
  "signal_handler sg p =
     (case sg of
        SIGINT \<Rightarrow> prepareForShutdown [JBool False] p
      | SIGTERM \<Rightarrow> prepareForShutdown [JBool False] p)"

text \<open>The constructor (lines 13-34), from the two environment variables and \<^verbatim>\<open>skipInit\<close>.\<close>

definition OkanjoWorker :: "string \<Rightarrow> string \<Rightarrow> bool \<Rightarrow> process" where
  "OkanjoWorker wt e skipInit =
     (let p0 = \<lparr>title = ''node-'' @ wt @ ''-'' @ e, inits = 0, message_listener = False,
                signal_handlers = [], exited = None\<rparr>;
          p1 = (if \<not> skipInit then worker_init p0 else p0);
          p2 = p1\<lparr>message_listener := True\<rparr>
      in bindProcessSignals p2)"

text \<open>
  Delivery by the runtime: nothing is delivered to a process that has exited; a message
  goes to the listener if attached; a signal goes to its handler if attached and ends
  the process otherwise.
\<close>

definition receive_message :: "payload \<Rightarrow> process \<Rightarrow> process" where
  "receive_message message p =
     (if exited p \<noteq> None \<or> \<not> message_listener p then p else message_handler message p)"

definition receive_signal :: "signal \<Rightarrow> process \<Rightarrow> process" where
  "receive_signal sg p =
     (if exited p \<noteq> None then p
      else if sg \<in> set (signal_handlers p) then signal_handler sg p
      else p\<lparr>exited := Some (KilledBy sg)\<rparr>)"

section \<open>Well-formed states\<close>

text \<open>What \<^verbatim>\<open>_bounceWorker\<close> leaves on a handle, given the handle of the armed deadline.\<close>

definition bounced :: "nat \<Rightarrow> worker \<Rightarrow> worker" where
  "bounced t h =
     h\<lparr>sent := sent h @ [SHUTDOWN_DIRECTIVE], disconnectTimer := Some t,
       disconnects := Suc (disconnects h), exitedAfterDisconnect := Some True\<rparr>"

text \<open>
  The registry of the facility holds each id once, and under an id the handle that
  carries it.
\<close>

definition registry_ok :: "sys \<Rightarrow> bool" where
  "registry_ok s =
     (distinct (registry s) \<and>
      (\<forall>i \<in> set (registry s). case handles s i of None \<Rightarrow> False | Some h \<Rightarrow> wid h = i))"

text \<open>A worker of this broker whose process has not ended.\<close>

definition alive :: "sys \<Rightarrow> nat \<Rightarrow> bool" where
  "alive s i = (case handles s i of None \<Rightarrow> False | Some h \<Rightarrow> wired h \<and> \<not> dead h \<and> wid h = i)"


text \<open>
  What the pool bookkeeping reads from a handle, and the frame of an operation that
  leaves the pool alone: same id list, gate, shutdown flag, target, next id, and the same
  id, observers and liveness on every handle.
\<close>

definition core :: "worker \<Rightarrow> nat \<times> bool \<times> bool" where
  "core h = (wid h, wired h, dead h)"

definition same_pool :: "sys \<Rightarrow> sys \<Rightarrow> bool" where
  "same_pool s s' =
     (workerIds s' = workerIds s \<and> drainOpen s' = drainOpen s \<and>
      gracefulShutdown s' = gracefulShutdown s \<and> workerCount s' = workerCount s \<and>
      nextId s' = nextId s \<and>
      (\<forall>i. map_option core (handles s' i) = map_option core (handles s i)))"

text \<open>
  The structure of the pool: the id list holds, once each, the ids of this broker's
  running workers, and handles sit under their own ids, below the next id.
\<close>

definition pool_struct :: "sys \<Rightarrow> bool" where
  "pool_struct s =
     (distinct (workerIds s) \<and>
      set (workerIds s) = id_str ` {i. alive s i} \<and>
      (\<forall>i h. handles s i = Some h \<longrightarrow> wid h = i \<and> i < nextId s))"



text \<open>
  Timer handles and worker ids in use are below the next ones to be handed out.
\<close>

definition timers_ok :: "sys \<Rightarrow> bool" where
  "timers_ok s =
     ((\<forall>x \<in> set (timers s). tid x < nextTimer s) \<and>
      (\<forall>j h t. handles s j = Some h \<longrightarrow> disconnectTimer h = Some t \<longrightarrow> t < nextTimer s) \<and>
      (\<forall>j h. handles s j = Some h \<longrightarrow> j < nextId s))"

text \<open>
  The frame of an operation that only adds: time stands still, timers and handles that
  exist stay (a kill count may rise), and a handle carries an old timer only if it did
  before.
\<close>

definition grows :: "sys \<Rightarrow> sys \<Rightarrow> bool" where
  "grows u u' =
     (nextTimer u \<le> nextTimer u' \<and> nextId u \<le> nextId u' \<and> now u' = now u \<and>
      (\<forall>x. tid x < nextTimer u \<longrightarrow> (x \<in> set (timers u')) = (x \<in> set (timers u))) \<and>
      (\<forall>j h. j < nextId u \<longrightarrow> handles u j = Some h \<longrightarrow>
         (\<exists>h'. handles u' j = Some h' \<and> kills h \<le> kills h')) \<and>
      (\<forall>j h' t. handles u' j = Some h' \<longrightarrow> disconnectTimer h' = Some t \<longrightarrow> t < nextTimer u \<longrightarrow>
         (\<exists>h. handles u j = Some h \<and> disconnectTimer h = Some t)))"

text \<open>
  The deadline \<open>t\<close> armed for worker \<open>i\<close>, due at \<open>D\<close>, when the worker had been
  killed \<open>k0\<close> times: the deadline is still pending and not overdue, or the worker has
  been killed since.
\<close>

definition watch :: "nat \<Rightarrow> nat \<Rightarrow> nat \<Rightarrow> nat \<Rightarrow> sys \<Rightarrow> bool" where
  "watch t i D k0 u =
     (t < nextTimer u \<and> i < nextId u \<and>
      (\<forall>x \<in> set (timers u). tid x = t \<longrightarrow>
         x = \<lparr>tid = t, due = D, act = DeadlineKill i, every = None\<rparr>) \<and>
      (\<forall>j h. handles u j = Some h \<longrightarrow> j \<noteq> i \<longrightarrow> disconnectTimer h \<noteq> Some t) \<and>
      (\<exists>h. handles u i = Some h \<and>
           (((\<exists>x \<in> set (timers u). tid x = t) \<and> now u \<le> D \<and> k0 \<le> kills h) \<or> k0 < kills h)))"

section \<open>A small concrete process\<close>

text \<open>
  A broker of type \<^verbatim>\<open>web\<close> with the default single worker, as the constructor leaves
  it on a freshly loaded facility.
\<close>

definition demo_worker :: worker where
  "demo_worker = (new_handle 1 ''web'' ''test'')\<lparr>wired := True\<rparr>"

definition demo_sys :: sys where
  "demo_sys =
     \<lparr>nextId = 2, handles = [1 \<mapsto> demo_worker], registry = [1],
      now = 0, nextTimer = 0, timers = [],
      gracefulShutdown = False, currentEnvironment = ''test'', reports = [],
      broker_type = ''web'', workerCount = 1, recycleRate = 0, debug = False,
      drainOpen = False, workerIds = [''1''], emitted = []\<rparr>"

text \<open>The same broker configured with two workers.\<close>

definition pair_sys :: sys where
  "pair_sys =
     \<lparr>nextId = 3,
      handles = [1 \<mapsto> (new_handle 1 ''web'' ''test'')\<lparr>wired := True\<rparr>,
                 2 \<mapsto> (new_handle 2 ''web'' ''test'')\<lparr>wired := True\<rparr>],
      registry = [1, 2],
      now = 0, nextTimer = 0, timers = [],
      gracefulShutdown = False, currentEnvironment = ''test'', reports = [],
      broker_type = ''web'', workerCount = 2, recycleRate = 0, debug = False,
      drainOpen = False, workerIds = [''1'', ''2''], emitted = []\<rparr>"

text \<open>
  A facility shared with another user: worker 1 was forked for a broker of type
  \<^verbatim>\<open>mail\<close> before the \<^verbatim>\<open>web\<close> broker was constructed and forked worker 2.
\<close>

definition shared_host :: host where
  "shared_host =
     \<lparr>nextId = 2, handles = [1 \<mapsto> new_handle 1 ''mail'' ''test''], registry = [1],
      now = 0, nextTimer = 0, timers = [],
      gracefulShutdown = False, currentEnvironment = ''test'', reports = []\<rparr>"

definition shared_sys :: sys where
  "shared_sys =
     \<lparr>nextId = 3,
      handles = [1 \<mapsto> new_handle 1 ''mail'' ''test'',
                 2 \<mapsto> (new_handle 2 ''web'' ''test'')\<lparr>wired := True\<rparr>],
      registry = [1, 2],
      now = 0, nextTimer = 0, timers = [],
      gracefulShutdown = False, currentEnvironment = ''test'', reports = [],
      broker_type = ''web'', workerCount = 1, recycleRate = 0, debug = False,
      drainOpen = False, workerIds = [''2''], emitted = []\<rparr>"

section \<open>Facts about the array primitives\<close>

lemma digit_char_inj: "a < 10 \<Longrightarrow> b < 10 \<Longrightarrow> digit_char a = digit_char b \<Longrightarrow> a = b"
proof -
  assume a: "a < 10" and b: "b < 10" and e: "digit_char a = digit_char b"
  from e have "(of_char (char_of (48 + a) :: char) :: nat) = of_char (char_of (48 + b) :: char)"
    by (simp add: digit_char_def)
  then have "(48 + a) mod 256 = (48 + b) mod 256"
    by simp
  with a b show "a = b" by simp
qed

lemma id_str_length: "0 < length (id_str n)"
  by (subst id_str.simps) simp

lemma id_str_inj: "id_str a = id_str b \<Longrightarrow> a = b"
proof (induction a arbitrary: b rule: id_str.induct)
  case (1 n)
  show ?case
  proof (cases "n < 10")
    case small: True
    show ?thesis
    proof (cases "b < 10")
      case True
      with small "1.prems" show ?thesis
        by (simp add: id_str.simps [of n] id_str.simps [of b] digit_char_inj)
    next
      case False
      with small "1.prems" id_str_length [of "b div 10"] show ?thesis
        by (simp add: id_str.simps [of n] id_str.simps [of b])
    qed
  next
    case big: False
    show ?thesis
    proof (cases "b < 10")
      case True
      with big "1.prems" id_str_length [of "n div 10"] show ?thesis
        by (simp add: id_str.simps [of n] id_str.simps [of b])
    next
      case False
      with big "1.prems" have e: "id_str (n div 10) = id_str (b div 10)"
        and d: "digit_char (n mod 10) = digit_char (b mod 10)"
        by (simp_all add: id_str.simps [of n] id_str.simps [of b])
      from "1.IH" [OF big e] have q: "n div 10 = b div 10" .
      from d have r: "n mod 10 = b mod 10"
        by (rule digit_char_inj [rotated 2]) simp_all
      from q r show ?thesis
        by (metis div_mult_mod_eq)
    qed
  qed
qed

lemma id_str_eq_iff [simp]: "id_str a = id_str b \<longleftrightarrow> a = b"
  by (auto dest: id_str_inj)

lemma indexOf_bounds: "- 1 \<le> indexOf xs x \<and> indexOf xs x < int (length xs)"
  by (induction xs) (auto simp: Let_def)

lemma indexOf_absent: "x \<notin> set xs \<Longrightarrow> indexOf xs x = - 1"
  by (induction xs) (auto simp: Let_def)

lemma indexOf_present: "x \<in> set xs \<Longrightarrow> 0 \<le> indexOf xs x"
  by (induction xs) (auto simp: Let_def)

lemma indexOf_ge0_iff: "0 \<le> indexOf xs x \<longleftrightarrow> x \<in> set xs"
proof (cases "x \<in> set xs")
  case True
  then show ?thesis by (simp add: indexOf_present)
next
  case False
  then show ?thesis by (simp add: indexOf_absent)
qed

lemma splice_one_at:
  "0 \<le> k \<Longrightarrow> k < int (length xs) \<Longrightarrow> splice xs k 1 = take (nat k) xs @ drop (Suc (nat k)) xs"
proof -
  assume k: "0 \<le> k" "k < int (length xs)"
  then have "nat (k + 1) = Suc (nat k)" by simp
  with k show ?thesis
    by (simp add: splice_def Let_def min_def max_def)
qed

lemma remove1_at_indexOf:
  "x \<in> set xs \<Longrightarrow>
     take (nat (indexOf xs x)) xs @ drop (Suc (nat (indexOf xs x))) xs = remove1 x xs"
proof (induction xs)
  case Nil
  then show ?case by simp
next
  case (Cons y ys)
  show ?case
  proof (cases "y = x")
    case True
    then show ?thesis by simp
  next
    case False
    with Cons.prems have mem: "x \<in> set ys" by simp
    have ge: "0 \<le> indexOf ys x" using mem by (rule indexOf_present)
    then have n: "nat (indexOf ys x + 1) = Suc (nat (indexOf ys x))" by simp
    from False ge Cons.IH [OF mem] show ?thesis
      by (simp add: Let_def n)
  qed
qed

lemma splice_indexOf_present:
  "x \<in> set xs \<Longrightarrow> splice xs (indexOf xs x) 1 = remove1 x xs"
proof -
  assume mem: "x \<in> set xs"
  have "0 \<le> indexOf xs x" using mem by (rule indexOf_present)
  moreover have "indexOf xs x < int (length xs)" using indexOf_bounds [of xs x] by simp
  ultimately show ?thesis
    by (simp add: splice_one_at remove1_at_indexOf [OF mem])
qed

lemma splice_last: "splice xs (- 1) 1 = butlast xs"
proof (cases xs rule: rev_cases)
  case Nil
  then show ?thesis by (simp add: splice_def)
next
  case (snoc ys y)
  then show ?thesis by (simp add: splice_def Let_def)
qed

lemma remove_id_present: "i \<in> set ids \<Longrightarrow> remove_id ids i = remove1 i ids"
  by (simp add: remove_id_def splice_indexOf_present)

lemma remove_id_absent: "i \<notin> set ids \<Longrightarrow> remove_id ids i = butlast ids"
  by (simp add: remove_id_def indexOf_absent splice_last)

lemma id_str_one: "id_str (Suc 0) = ''1''"
  by code_simp


lemma spawnWorker_workerIds: "workerIds (spawnWorker s) = workerIds s @ [id_str (nextId s)]"
  by (simp add: spawnWorker_def fork_def Let_def new_handle_def)

section \<open>The exit observer\<close>

text \<open>
  C10. The exit observer removes the id with \<^verbatim>\<open>splice(indexOf(id), 1)\<close>. When the id
  is in the list, \<^verbatim>\<open>indexOf\<close> is non-negative and exactly its first occurrence goes.
  When the id is absent, \<^verbatim>\<open>indexOf\<close> is -1 and the splice drops the last element, which
  is the id pushed by the latest spawn: a non-empty list does not stay as it was.
\<close>

theorem exit_removal_edge_case:
  "(i \<in> set ids \<longrightarrow> 0 \<le> indexOf ids i \<and> remove_id ids i = remove1 i ids) \<and>
   (i \<notin> set ids \<longrightarrow> indexOf ids i = - 1 \<and> remove_id ids i = butlast ids) \<and>
   (i \<notin> set ids \<and> ids \<noteq> [] \<longrightarrow> remove_id ids i @ [last ids] = ids \<and> remove_id ids i \<noteq> ids) \<and>
   (i \<notin> set (workerIds (spawnWorker s)) \<longrightarrow>
       remove_id (workerIds (spawnWorker s)) i = workerIds s) \<and>
   (id_str (wid h) \<notin> set (workerIds s) \<and> drainOpen s \<longrightarrow>
       workerIds (on_exit h code sg s) = butlast (workerIds s))"
proof -
  have a: "i \<in> set ids \<longrightarrow> 0 \<le> indexOf ids i \<and> remove_id ids i = remove1 i ids"
    by (simp add: indexOf_present remove_id_present)
  have b: "i \<notin> set ids \<longrightarrow> indexOf ids i = - 1 \<and> remove_id ids i = butlast ids"
    by (simp add: indexOf_absent remove_id_absent)
  have c: "i \<notin> set ids \<and> ids \<noteq> [] \<longrightarrow> remove_id ids i @ [last ids] = ids \<and> remove_id ids i \<noteq> ids"
  proof
    assume h: "i \<notin> set ids \<and> ids \<noteq> []"
    then have "length (butlast ids) < length ids" by simp
    then have "butlast ids \<noteq> ids" by (metis less_irrefl)
    with h show "remove_id ids i @ [last ids] = ids \<and> remove_id ids i \<noteq> ids"
      by (simp add: remove_id_absent)
  qed
  have d: "i \<notin> set (workerIds (spawnWorker s)) \<longrightarrow>
       remove_id (workerIds (spawnWorker s)) i = workerIds s"
  proof
    assume "i \<notin> set (workerIds (spawnWorker s))"
    then have "remove_id (workerIds (spawnWorker s)) i = butlast (workerIds (spawnWorker s))"
      by (rule remove_id_absent)
    then show "remove_id (workerIds (spawnWorker s)) i = workerIds s"
      by (simp add: spawnWorker_workerIds)
  qed
  have e: "id_str (wid h) \<notin> set (workerIds s) \<and> drainOpen s \<longrightarrow>
       workerIds (on_exit h code sg s) = butlast (workerIds s)"
    by (simp add: on_exit_def Let_def emit_def remove_id_absent)
  from a b c d e show ?thesis by blast
qed

theorem exit_removal_edge_case_witness:
  "''7'' \<notin> set [''1'', ''2''] \<and> [''1'', ''2''] \<noteq> [] \<and> indexOf [''1'', ''2''] ''7'' = - 1
     \<and> remove_id [''1'', ''2''] ''7'' = [''1'']
     \<and> ''2'' \<in> set [''1'', ''2''] \<and> remove_id [''1'', ''2''] ''2'' = [''1'']"
  using exit_removal_edge_case [of "''7''" "[''1'', ''2'']"]
        exit_removal_edge_case [of "''2''" "[''1'', ''2'']"]
  by simp



section \<open>The message observer\<close>

text \<open>
  C7. The payload \<^verbatim>\<open>null\<close> passes \<^verbatim>\<open>typeof msg === "object"\<close>, and reading its
  \<^verbatim>\<open>type\<close> throws: the observer emits neither \<^verbatim>\<open>worker_ops\<close> nor
  \<^verbatim>\<open>worker_message\<close>, and the exception leaves the event callback uncaught. Every
  other payload is routed as the claim says (\<open>on_message_not_null\<close> below).
\<close>

theorem null_message_throws:
  "on_message h JNull s = Inl TypeError \<and>
   step L demo_sys (Message 1 JNull) = Inl (Uncaught TypeError)"
  by (simp add: on_message_def message_observer_def step_def demo_sys_def demo_worker_def
      new_handle_def)

lemma on_message_not_null:
  "msg \<noteq> JNull \<Longrightarrow>
     on_message h msg s =
       Inr (emit (if is_object msg \<and> get_type msg = Inr (Some (JStr ''ops''))
                  then WorkerOps msg (wid h) else WorkerMessage msg (wid h)) s)"
  by (cases msg) (auto simp: on_message_def)

section \<open>Spawning and resuming\<close>

lemma spawnWorker_fields [simp]:
  "workerCount (spawnWorker s) = workerCount s"
  "drainOpen (spawnWorker s) = drainOpen s"
  "gracefulShutdown (spawnWorker s) = gracefulShutdown s"
  "nextId (spawnWorker s) = Suc (nextId s)"
  "registry (spawnWorker s) = registry s @ [nextId s]"
  "emitted (spawnWorker s) = emitted s"
  "reports (spawnWorker s) = reports s"
  "timers (spawnWorker s) = timers s"
  "broker_type (spawnWorker s) = broker_type s"
  "currentEnvironment (spawnWorker s) = currentEnvironment s"
  "handles (spawnWorker s) = (handles s)(nextId s \<mapsto>
      (new_handle (nextId s) (broker_type s) (currentEnvironment s))\<lparr>wired := True\<rparr>)"
  by (simp_all add: spawnWorker_def fork_def Let_def new_handle_def)

lemma spawn_loop_funpow:
  "spawn_loop i s = (spawnWorker ^^ nat (workerCount s - i)) s"
proof (induction i s rule: spawn_loop.induct)
  case (1 i s)
  show ?case
  proof (cases "i < workerCount s")
    case True
    then have n: "nat (workerCount s - i) = Suc (nat (workerCount s - (i + 1)))" by simp
    from True "1.IH" show ?thesis
      by (subst spawn_loop.simps) (simp add: n funpow_Suc_right del: funpow.simps)
  next
    case False
    then show ?thesis by (subst spawn_loop.simps) simp
  qed
qed

lemma funpow_spawn_fields:
  "workerCount ((spawnWorker ^^ k) s) = workerCount s \<and>
   drainOpen ((spawnWorker ^^ k) s) = drainOpen s \<and>
   gracefulShutdown ((spawnWorker ^^ k) s) = gracefulShutdown s \<and>
   emitted ((spawnWorker ^^ k) s) = emitted s \<and>
   reports ((spawnWorker ^^ k) s) = reports s \<and>
   timers ((spawnWorker ^^ k) s) = timers s \<and>
   nextId ((spawnWorker ^^ k) s) = nextId s + k \<and>
   registry ((spawnWorker ^^ k) s) = registry s @ [nextId s ..< nextId s + k] \<and>
   workerIds ((spawnWorker ^^ k) s) = workerIds s @ map id_str [nextId s ..< nextId s + k]"
  by (induction k) (simp_all add: spawnWorker_workerIds)

lemma funpow_spawn_handles:
  "handles ((spawnWorker ^^ k) s) j =
     (if nextId s \<le> j \<and> j < nextId s + k
      then Some ((new_handle j (broker_type s) (currentEnvironment s))\<lparr>wired := True\<rparr>)
      else handles s j)"
proof (induction k)
  case 0
  then show ?case by auto
next
  case (Suc k)
  have b: "broker_type ((spawnWorker ^^ k) s) = broker_type s"
    "currentEnvironment ((spawnWorker ^^ k) s) = currentEnvironment s"
    by (induction k) simp_all
  from Suc show ?case
    by (auto simp: funpow_spawn_fields b)
qed

lemma id_str_two: "id_str 2 = ''2''"
  by code_simp

text \<open>
  C5. From every state, \<^verbatim>\<open>resumeWorkers\<close> closes the drain gate and forks exactly
  \<open>workerCount - |workerIds|\<close> workers (none when the pool is at or above the target),
  pushing their ids in order; when the pool was at or below the target it ends with
  exactly \<open>workerCount\<close> ids.
\<close>

theorem resume_restores_headcount:
  "drainOpen (resumeWorkers s) = False \<and>
   nextId (resumeWorkers s) = nextId s + nat (workerCount s - int (length (workerIds s))) \<and>
   registry (resumeWorkers s)
     = registry s @ [nextId s ..< nextId s + nat (workerCount s - int (length (workerIds s)))] \<and>
   workerIds (resumeWorkers s)
     = workerIds s @ map id_str [nextId s ..< nextId s + nat (workerCount s - int (length (workerIds s)))] \<and>
   (int (length (workerIds s)) \<le> workerCount s \<longrightarrow>
      int (length (workerIds (resumeWorkers s))) = workerCount s) \<and>
   (workerCount s \<le> int (length (workerIds s)) \<longrightarrow>
      workerIds (resumeWorkers s) = workerIds s \<and> nextId (resumeWorkers s) = nextId s
      \<and> registry (resumeWorkers s) = registry s \<and> handles (resumeWorkers s) = handles s)"
  by (simp add: resumeWorkers_def Let_def spawn_loop_funpow funpow_spawn_fields)

theorem resume_restores_headcount_witness:
  "int (length (workerIds (demo_sys\<lparr>drainOpen := True, workerIds := []\<rparr>)))
      \<le> workerCount (demo_sys\<lparr>drainOpen := True, workerIds := []\<rparr>)
   \<and> workerIds (resumeWorkers (demo_sys\<lparr>drainOpen := True, workerIds := []\<rparr>)) = [''2'']
   \<and> nextId (resumeWorkers (demo_sys\<lparr>drainOpen := True, workerIds := []\<rparr>)) = 3
   \<and> workerCount demo_sys \<le> int (length (workerIds demo_sys))
   \<and> workerIds (resumeWorkers demo_sys) = [''1'']"
  using resume_restores_headcount [of "demo_sys\<lparr>drainOpen := True, workerIds := []\<rparr>"]
        resume_restores_headcount [of demo_sys]
  by (simp add: demo_sys_def id_str_two)

section \<open>The worker runtime's shutdown path\<close>

text \<open>
  C9. In a running worker with its listeners attached, the parent's directive, SIGINT and
  SIGTERM all go through \<^verbatim>\<open>prepareForShutdown\<close>, which drops its arguments, and
  leave the process in the same state: signal handlers detached, exit status 0.
\<close>

theorem one_shutdown_path:
  "exited p = None \<Longrightarrow> message_listener p \<Longrightarrow>
   SIGINT \<in> set (signal_handlers p) \<Longrightarrow> SIGTERM \<in> set (signal_handlers p) \<Longrightarrow>
     receive_message (JStr ''suicide'') p = prepareForShutdown [] p \<and>
     receive_signal SIGINT p = prepareForShutdown [JBool False] p \<and>
     receive_signal SIGTERM p = prepareForShutdown [JBool False] p \<and>
     receive_signal SIGINT p = receive_message (JStr ''suicide'') p \<and>
     receive_signal SIGTERM p = receive_message (JStr ''suicide'') p \<and>
     exited (receive_message (JStr ''suicide'') p) = Some (ExitCode 0)"
  by (simp add: receive_message_def receive_signal_def message_handler_def signal_handler_def
      prepareForShutdown_def shutdown_def)

theorem one_shutdown_path_witness:
  "exited (OkanjoWorker ''web'' ''test'' False) = None
   \<and> message_listener (OkanjoWorker ''web'' ''test'' False)
   \<and> SIGINT \<in> set (signal_handlers (OkanjoWorker ''web'' ''test'' False))
   \<and> SIGTERM \<in> set (signal_handlers (OkanjoWorker ''web'' ''test'' False))
   \<and> receive_signal SIGINT (OkanjoWorker ''web'' ''test'' False)
       = receive_message (JStr ''suicide'') (OkanjoWorker ''web'' ''test'' False)
   \<and> receive_signal SIGTERM (OkanjoWorker ''web'' ''test'' False)
       = receive_message (JStr ''suicide'') (OkanjoWorker ''web'' ''test'' False)
   \<and> exited (receive_signal SIGTERM (OkanjoWorker ''web'' ''test'' False)) = Some (ExitCode 0)
   \<and> signal_handlers (receive_signal SIGTERM (OkanjoWorker ''web'' ''test'' False)) = []"
  using one_shutdown_path [of "OkanjoWorker ''web'' ''test'' False"]
  by (simp add: OkanjoWorker_def bindProcessSignals_def worker_init_def Let_def
      prepareForShutdown_def shutdown_def unbindProcessSignals_def)


section \<open>Bounce and recycle\<close>

lemma find_eq:
  "find (\<lambda>j. j = i) xs = (if i \<in> set xs then Some i else None)"
  by (induction xs) auto

lemma lookup_worker_registered:
  "i \<in> set (registry s) \<Longrightarrow> lookup_worker s (id_str i) = handles s i"
  by (simp add: lookup_worker_def find_eq)

lemma bounceWorker_found:
  "lookup_worker s k = Some w \<Longrightarrow>
     bounceWorker k s =
       s\<lparr>nextTimer := Suc (nextTimer s),
         timers := timers s @ [\<lparr>tid = nextTimer s, due = now s + 2000,
                                 act = DeadlineKill (wid w), every = None\<rparr>],
         handles := (handles s)(wid w := map_option (bounced (nextTimer s)) (handles s (wid w))),
         registry := removeAll (wid w) (registry s)\<rparr>"
  by (cases "handles s (wid w)")
     (simp_all add: bounceWorker_def setTimeout_def upd_handle_def Let_def bounced_def)

lemma bounceWorker_missing:
  "lookup_worker s k = None \<Longrightarrow>
     bounceWorker k s
       = report (BounceReport ''Could not bounce worker gracefully, probably a race?'') s"
  by (simp add: bounceWorker_def)

lemma recycle_body_own:
  assumes "i \<in> set (registry s)" "handles s i = Some h" "wid h = i"
  shows "bounceWorker (id_str i) s =
       s\<lparr>nextTimer := Suc (nextTimer s),
         timers := timers s @ [\<lparr>tid = nextTimer s, due = now s + 2000,
                                 act = DeadlineKill i, every = None\<rparr>],
         handles := (handles s)(i \<mapsto> bounced (nextTimer s) h),
         registry := removeAll i (registry s)\<rparr>"
proof -
  have "lookup_worker s (id_str i) = Some h"
    using assms by (simp add: lookup_worker_registered)
  from bounceWorker_found [OF this] assms show ?thesis by simp
qed

lemma recycle_fold:
  "distinct js \<Longrightarrow>
   \<forall>i \<in> set js. i \<in> set (registry s) \<and> (\<exists>h. handles s i = Some h \<and> wid h = i) \<Longrightarrow>
   s' = fold (\<lambda>k s'. if k \<in> set (map id_str (registry s')) \<and> 0 \<le> indexOf (workerIds s') k
                        then bounceWorker k s' else s')
          (map id_str js) s \<Longrightarrow>
     workerIds s' = workerIds s \<and> reports s' = reports s \<and>
     emitted s' = emitted s \<and> nextId s' = nextId s \<and> drainOpen s' = drainOpen s \<and>
     registry s' = [j \<leftarrow> registry s. \<not> (j \<in> set js \<and> id_str j \<in> set (workerIds s))] \<and>
     map act (timers s') = map act (timers s) @ map DeadlineKill [i \<leftarrow> js. id_str i \<in> set (workerIds s)] \<and>
     (\<forall>j. if j \<in> set js \<and> id_str j \<in> set (workerIds s)
          then \<exists>t. handles s' j = map_option (bounced t) (handles s j)
          else handles s' j = handles s j)"
proof (induction js arbitrary: s)
  case Nil
  then show ?case by simp
next
  case (Cons i rest)
  let ?F = "\<lambda>k s'. if k \<in> set (map id_str (registry s')) \<and> 0 \<le> indexOf (workerIds s') k
                        then bounceWorker k s' else s'"
  from Cons.prems obtain h where reg: "i \<in> set (registry s)" and h: "handles s i = Some h" "wid h = i"
    by auto
  from Cons.prems have d: "distinct rest" and ni: "i \<notin> set rest" by simp_all
  have here: "id_str i \<in> set (map id_str (registry s))" using reg by simp
  show ?case
  proof (cases "id_str i \<in> set (workerIds s)")
    case True
    define s1 where "s1 = bounceWorker (id_str i) s"
    have s1: "s1 = s\<lparr>nextTimer := Suc (nextTimer s),
         timers := timers s @ [\<lparr>tid = nextTimer s, due = now s + 2000,
                                 act = DeadlineKill i, every = None\<rparr>],
         handles := (handles s)(i \<mapsto> bounced (nextTimer s) h),
         registry := removeAll i (registry s)\<rparr>"
      unfolding s1_def using reg h by (rule recycle_body_own)
    have pre: "\<forall>j \<in> set rest. j \<in> set (registry s1) \<and> (\<exists>h. handles s1 j = Some h \<and> wid h = j)"
      using Cons.prems(2) ni by (auto simp: s1)
    have "?F (id_str i) s = s1"
      using True here by (simp add: s1_def indexOf_ge0_iff)
    then have run: "s' = fold ?F (map id_str rest) s1"
      using Cons.prems(3) by simp
    note ih = Cons.IH [OF d pre run]
    have f1: "workerIds s1 = workerIds s" "reports s1 = reports s"
      "emitted s1 = emitted s" "nextId s1 = nextId s" "drainOpen s1 = drainOpen s"
      "map act (timers s1) = map act (timers s) @ [DeadlineKill i]"
      "registry s1 = removeAll i (registry s)"
      by (simp_all add: s1)
    have hs: "\<And>j. handles s1 j = (if j = i then Some (bounced (nextTimer s) h) else handles s j)"
      by (simp add: s1)
    have rg: "registry s' = [j \<leftarrow> registry s. \<not> (j \<in> set (i # rest) \<and> id_str j \<in> set (workerIds s))]"
    proof -
      from ih have "registry s' = [j \<leftarrow> registry s1. \<not> (j \<in> set rest \<and> id_str j \<in> set (workerIds s))]"
        by (simp add: f1)
      also have "\<dots> = [j \<leftarrow> registry s. j \<noteq> i \<and> \<not> (j \<in> set rest \<and> id_str j \<in> set (workerIds s))]"
        by (simp add: f1 removeAll_filter_not_eq) (metis)
      also have "\<dots> = [j \<leftarrow> registry s. \<not> (j \<in> set (i # rest) \<and> id_str j \<in> set (workerIds s))]"
        using True by (intro filter_cong) auto
      finally show ?thesis .
    qed
    have hh: "\<forall>j. if j \<in> set (i # rest) \<and> id_str j \<in> set (workerIds s)
          then \<exists>t. handles s' j = map_option (bounced t) (handles s j)
          else handles s' j = handles s j"
    proof
      fix j
      show "if j \<in> set (i # rest) \<and> id_str j \<in> set (workerIds s)
          then \<exists>t. handles s' j = map_option (bounced t) (handles s j)
          else handles s' j = handles s j"
      proof (cases "j = i")
        case True
        with ih ni have "handles s' j = handles s1 j" by (simp add: f1)
        with True \<open>id_str i \<in> set (workerIds s)\<close> h show ?thesis
          by (auto simp: hs)
      next
        case False
        with ih show ?thesis
          using f1(1) hs by (metis (mono_tags, lifting) set_ConsD list.set_intros(2))
      qed
    qed
    from ih True hh rg show ?thesis by (simp add: f1)
  next
    case False
    have pre: "\<forall>j \<in> set rest. j \<in> set (registry s) \<and> (\<exists>h. handles s j = Some h \<and> wid h = j)"
      using Cons.prems(2) by auto
    have run: "s' = fold ?F (map id_str rest) s"
      using Cons.prems(3) False by (simp add: indexOf_ge0_iff)
    note ih = Cons.IH [OF d pre run]
    have rg: "[j \<leftarrow> registry s. \<not> (j \<in> set rest \<and> id_str j \<in> set (workerIds s))]
        = [j \<leftarrow> registry s. \<not> (j \<in> set (i # rest) \<and> id_str j \<in> set (workerIds s))]"
      using False by (intro filter_cong) auto
    from ih False show ?thesis unfolding rg [symmetric] by auto
  qed
qed

lemma shared_sys_constructed:
  "OkanjoBroker shared_host (Some ''OkanjoApp'') ''web'' None = Inr shared_sys"
  by (simp add: OkanjoBroker_def app_constructor_name_def no_options_def init_def shared_host_def
      spawn_loop.simps [of 0] spawn_loop.simps [of 1] spawnWorker_def fork_def Let_def
      shared_sys_def new_handle_def id_str_two fun_upd_twist)

lemma bounced_changes: "bounced t h \<noteq> h"
proof
  assume "bounced t h = h"
  then have "sent (bounced t h) = sent h" by simp
  then show False by (simp add: bounced_def)
qed

lemma demo_lookup: "lookup_worker demo_sys ''1'' = Some demo_worker"
  by (simp add: lookup_worker_def demo_sys_def id_str_one)

text \<open>
  C6. In a well-formed registry, \<^verbatim>\<open>recycleWorkers\<close> arms a deadline for exactly the
  registered ids that are in this broker's \<^verbatim>\<open>workerIds\<close>, in registry order; a
  registered handle is changed if and only if its id is in \<^verbatim>\<open>workerIds\<close>, and then
  it is changed as a bounce changes it; every other handle, the id list, the reports and
  the emitted events stay as they were, and the registry loses exactly the bounced ids
  (their disconnect drops them) and keeps every other.
\<close>

theorem recycle_bounces_own_ids_only:
  "registry_ok s \<Longrightarrow>
     map act (timers (recycleWorkers s))
       = map act (timers s) @ map DeadlineKill [i \<leftarrow> registry s. id_str i \<in> set (workerIds s)] \<and>
     (\<forall>j. if j \<in> set (registry s) \<and> id_str j \<in> set (workerIds s)
          then \<exists>t. handles (recycleWorkers s) j = map_option (bounced t) (handles s j)
          else handles (recycleWorkers s) j = handles s j) \<and>
     (\<forall>j \<in> set (registry s).
        (handles (recycleWorkers s) j \<noteq> handles s j) = (id_str j \<in> set (workerIds s))) \<and>
     workerIds (recycleWorkers s) = workerIds s \<and>
     registry (recycleWorkers s) = [i \<leftarrow> registry s. id_str i \<notin> set (workerIds s)] \<and>
     reports (recycleWorkers s) = reports s \<and> emitted (recycleWorkers s) = emitted s \<and>
     nextId (recycleWorkers s) = nextId s"
proof -
  assume ok: "registry_ok s"
  then have d: "distinct (registry s)"
    and r: "\<forall>i \<in> set (registry s). i \<in> set (registry s) \<and> (\<exists>h. handles s i = Some h \<and> wid h = i)"
    by (auto simp: registry_ok_def split: option.splits)
  note f = recycle_fold [OF d r, of "recycleWorkers s", unfolded recycleWorkers_def, OF refl,
      folded recycleWorkers_def]
  have iff: "\<forall>j \<in> set (registry s).
        (handles (recycleWorkers s) j \<noteq> handles s j) = (id_str j \<in> set (workerIds s))"
  proof
    fix j assume j: "j \<in> set (registry s)"
    with r obtain h where h: "handles s j = Some h" by auto
    show "(handles (recycleWorkers s) j \<noteq> handles s j) = (id_str j \<in> set (workerIds s))"
    proof (cases "id_str j \<in> set (workerIds s)")
      case True
      with f j obtain t where "handles (recycleWorkers s) j = map_option (bounced t) (handles s j)"
        by metis
      with h True show ?thesis by (simp add: bounced_changes)
    next
      case False
      with f have "handles (recycleWorkers s) j = handles s j" by metis
      with False show ?thesis by simp
    qed
  qed
  have rg: "[j \<leftarrow> registry s. \<not> (j \<in> set (registry s) \<and> id_str j \<in> set (workerIds s))]
      = [i \<leftarrow> registry s. id_str i \<notin> set (workerIds s)]"
    by (intro filter_cong) auto
  from f iff show ?thesis unfolding rg [symmetric] by simp
qed

theorem recycle_bounces_own_ids_only_witness:
  "registry_ok shared_sys
   \<and> map act (timers (recycleWorkers shared_sys)) = [DeadlineKill 2]
   \<and> handles (recycleWorkers shared_sys) 1 = Some (new_handle 1 ''mail'' ''test'')
   \<and> handles (recycleWorkers shared_sys) 2 \<noteq> handles shared_sys 2
   \<and> workerIds (recycleWorkers shared_sys) = [''2'']
   \<and> registry (recycleWorkers shared_sys) = [1]"
proof -
  have ok: "registry_ok shared_sys"
    by (simp add: registry_ok_def shared_sys_def new_handle_def)
  have m: "id_str 1 \<notin> set (workerIds shared_sys)" "id_str 2 \<in> set (workerIds shared_sys)"
    "registry shared_sys = [1, 2]" "timers shared_sys = []" "workerIds shared_sys = [''2'']"
    "handles shared_sys 1 = Some (new_handle 1 ''mail'' ''test'')"
    by (simp_all add: shared_sys_def id_str_one id_str_two)
  from recycle_bounces_own_ids_only [OF ok] ok m show ?thesis
    by (simp split: if_splits)
qed

section \<open>The shutdown directive\<close>

text \<open>
  C8, as stated, fails: the directive the broker sends is not \<^verbatim>\<open>"shutdown"\<close>, and a
  worker that receives \<^verbatim>\<open>"shutdown"\<close> keeps running.
\<close>

theorem directive_is_not_shutdown:
  "SHUTDOWN_DIRECTIVE \<noteq> JStr ''shutdown''
   \<and> map_option sent (handles (bounceWorker ''1'' demo_sys) 1) = Some [JStr ''suicide'']
   \<and> exited (receive_message (JStr ''shutdown'') (OkanjoWorker ''web'' ''test'' False)) = None"
  by code_simp

text \<open>
  C8, as the code has it. The message a bounce sends to the worker is the string
  \<^verbatim>\<open>"suicide"\<close>, and the worker's listener starts the shutdown for that string and
  for no other payload.
\<close>

theorem directive_is_suicide:
  "(lookup_worker s k = Some w \<and> handles s (wid w) = Some w \<longrightarrow>
      map_option sent (handles (bounceWorker k s) (wid w)) = Some (sent w @ [JStr ''suicide''])) \<and>
   message_handler m p = (if m = JStr ''suicide'' then prepareForShutdown [] p else p) \<and>
   (exited p = None \<and> message_listener p \<longrightarrow>
      (exited (receive_message m p) = Some (ExitCode 0)) = (m = JStr ''suicide''))"
  by (auto simp: bounceWorker_found bounced_def SHUTDOWN_DIRECTIVE_def message_handler_def
      receive_message_def prepareForShutdown_def shutdown_def)

theorem directive_is_suicide_witness:
  "lookup_worker demo_sys ''1'' = Some demo_worker
   \<and> handles demo_sys (wid demo_worker) = Some demo_worker
   \<and> map_option sent (handles (bounceWorker ''1'' demo_sys) (wid demo_worker)) = Some [JStr ''suicide'']
   \<and> exited (OkanjoWorker ''web'' ''test'' False) = None
   \<and> message_listener (OkanjoWorker ''web'' ''test'' False)
   \<and> exited (receive_message (JStr ''suicide'') (OkanjoWorker ''web'' ''test'' False)) = Some (ExitCode 0)
   \<and> exited (receive_message (JStr ''shutdown'') (OkanjoWorker ''web'' ''test'' False)) \<noteq> Some (ExitCode 0)"
proof -
  have l: "lookup_worker demo_sys ''1'' = Some demo_worker"
    by (simp add: lookup_worker_def demo_sys_def id_str_one)
  have h: "handles demo_sys (wid demo_worker) = Some demo_worker" "sent demo_worker = []"
    by (simp_all add: demo_sys_def demo_worker_def new_handle_def)
  have p: "exited (OkanjoWorker ''web'' ''test'' False) = None"
    "message_listener (OkanjoWorker ''web'' ''test'' False)"
    by (simp_all add: OkanjoWorker_def bindProcessSignals_def worker_init_def Let_def)
  from directive_is_suicide [of demo_sys "''1''" demo_worker "JStr ''suicide''" "OkanjoWorker ''web'' ''test'' False"]
       directive_is_suicide [of demo_sys "''1''" demo_worker "JStr ''shutdown''" "OkanjoWorker ''web'' ''test'' False"]
       l h p
  show ?thesis by simp
qed


section \<open>Operations that leave the pool alone\<close>





lemma same_pool_emit: "same_pool s (emit e s)"
  by (simp add: same_pool_def emit_def)









lemma same_pool_message: "on_message h m s = Inr s' \<Longrightarrow> same_pool s s'"
  by (auto simp: on_message_def same_pool_emit split: if_splits sum.splits)









section \<open>Listeners inside the observers\<close>

lemma notify_none [simp]: "notify no_listeners e s = emit e s"
  by (simp add: notify_def no_listeners_def)

lemma exit_observer_none: "exit_observer no_listeners h c g s = on_exit h c g s"
  by (simp add: exit_observer_def on_exit_def exit_removed_def Let_def)

lemma message_observer_none: "message_observer no_listeners h m s = on_message h m s"
  by (simp add: message_observer_def on_message_def split: sum.splits)












section \<open>Draining\<close>







lemma pair_sys_constructed:
  "OkanjoBroker (pristine ''test'') (Some ''OkanjoApp'') ''web''
     (Some \<lparr>opt_workerCount = Some 2, opt_recycleRate = None, opt_debug = None\<rparr>) = Inr pair_sys"
  by (simp add: OkanjoBroker_def app_constructor_name_def init_def pristine_def
      spawn_loop.simps [of 0] spawn_loop.simps [of 1] spawn_loop.simps [of 2]
      spawnWorker_def fork_def Let_def
      pair_sys_def new_handle_def id_str_one numeral_2_eq_2 id_str_two [unfolded numeral_2_eq_2])




section \<open>The pool-size invariant\<close>

lemma alive_emit [simp]: "alive (emit e s) i = alive s i"
  by (simp add: alive_def emit_def)

lemma alive_report [simp]: "alive (report r s) i = alive s i"
  by (simp add: alive_def report_def)

lemma pool_struct_emit [simp]: "pool_struct (emit e s) = pool_struct s"
  by (simp add: pool_struct_def) (simp add: emit_def)

lemma pool_struct_report [simp]: "pool_struct (report r s) = pool_struct s"
  by (simp add: pool_struct_def) (simp add: report_def)










lemma pool_struct_drainOpen [simp]: "pool_struct (s\<lparr>drainOpen := b\<rparr>) = pool_struct s"
  by (simp add: pool_struct_def alive_def)




























section \<open>The deadline of a bounce\<close>

lemma grows_same:
  "nextTimer u' = nextTimer u \<Longrightarrow> nextId u' = nextId u \<Longrightarrow> now u' = now u \<Longrightarrow>
   timers u' = timers u \<Longrightarrow> handles u' = handles u \<Longrightarrow> grows u u'"
  by (simp add: grows_def)

lemma grows_refl: "grows u u"
  by (simp add: grows_same)

lemma grows_trans:
  assumes a: "grows u v" and b: "grows v w"
  shows "grows u w"
proof -
  from a have a1: "nextTimer u \<le> nextTimer v" "nextId u \<le> nextId v" "now v = now u"
    and a2: "\<And>x. tid x < nextTimer u \<Longrightarrow> (x \<in> set (timers v)) = (x \<in> set (timers u))"
    and a3: "\<And>j h. j < nextId u \<Longrightarrow> handles u j = Some h \<Longrightarrow>
         \<exists>h'. handles v j = Some h' \<and> kills h \<le> kills h'"
    and a4: "\<And>j h' t. handles v j = Some h' \<Longrightarrow> disconnectTimer h' = Some t \<Longrightarrow> t < nextTimer u \<Longrightarrow>
         \<exists>h. handles u j = Some h \<and> disconnectTimer h = Some t"
    by (simp_all add: grows_def)
  from b have b1: "nextTimer v \<le> nextTimer w" "nextId v \<le> nextId w" "now w = now v"
    and b2: "\<And>x. tid x < nextTimer v \<Longrightarrow> (x \<in> set (timers w)) = (x \<in> set (timers v))"
    and b3: "\<And>j h. j < nextId v \<Longrightarrow> handles v j = Some h \<Longrightarrow>
         \<exists>h'. handles w j = Some h' \<and> kills h \<le> kills h'"
    and b4: "\<And>j h' t. handles w j = Some h' \<Longrightarrow> disconnectTimer h' = Some t \<Longrightarrow> t < nextTimer v \<Longrightarrow>
         \<exists>h. handles v j = Some h \<and> disconnectTimer h = Some t"
    by (simp_all add: grows_def)
  have c2: "\<forall>x. tid x < nextTimer u \<longrightarrow> (x \<in> set (timers w)) = (x \<in> set (timers u))"
  proof (intro allI impI)
    fix x :: timer assume x: "tid x < nextTimer u"
    with a1 have "tid x < nextTimer v" by simp
    from b2 [OF this] a2 [OF x] show "(x \<in> set (timers w)) = (x \<in> set (timers u))" by simp
  qed
  have c3: "\<forall>j h. j < nextId u \<longrightarrow> handles u j = Some h \<longrightarrow>
         (\<exists>h'. handles w j = Some h' \<and> kills h \<le> kills h')"
  proof (intro allI impI)
    fix j h assume j: "j < nextId u" and h: "handles u j = Some h"
    from a3 [OF j h] obtain h1 where h1: "handles v j = Some h1" "kills h \<le> kills h1" by blast
    from j a1 have "j < nextId v" by simp
    from b3 [OF this h1(1)] obtain h2 where "handles w j = Some h2" "kills h1 \<le> kills h2" by blast
    with h1 show "\<exists>h'. handles w j = Some h' \<and> kills h \<le> kills h'" by auto
  qed
  have c4: "\<forall>j h' t. handles w j = Some h' \<longrightarrow> disconnectTimer h' = Some t \<longrightarrow> t < nextTimer u \<longrightarrow>
         (\<exists>h. handles u j = Some h \<and> disconnectTimer h = Some t)"
  proof (intro allI impI)
    fix j h' t assume h': "handles w j = Some h'" and d: "disconnectTimer h' = Some t"
      and t: "t < nextTimer u"
    from t a1 have "t < nextTimer v" by simp
    from b4 [OF h' d this] obtain h1 where "handles v j = Some h1" "disconnectTimer h1 = Some t"
      by blast
    from a4 [OF this t] show "\<exists>h. handles u j = Some h \<and> disconnectTimer h = Some t" .
  qed
  from a1 b1 c2 c3 c4 show ?thesis
    unfolding grows_def by simp
qed

lemma grows_emit: "grows u (emit e u)"
  by (rule grows_same) (simp_all add: emit_def)

lemma grows_report: "grows u (report r u)"
  by (rule grows_same) (simp_all add: report_def)

lemma grows_exit_removed: "grows u (exit_removed h u)"
  by (rule grows_same) (simp_all add: exit_removed_def)

lemma grows_gate: "grows u (u\<lparr>drainOpen := b\<rparr>)"
  by (rule grows_same) simp_all

lemma grows_handle:
  assumes h: "handles u i = Some h" and k: "kills h \<le> kills h'"
    and d: "disconnectTimer h' = disconnectTimer h \<or> (\<exists>t. disconnectTimer h' = Some t \<and> nextTimer u \<le> t)"
  shows "grows u (u\<lparr>handles := (handles u)(i \<mapsto> h')\<rparr>)"
proof -
  have c3: "\<forall>j x. j < nextId u \<longrightarrow> handles u j = Some x \<longrightarrow>
         (\<exists>x'. ((handles u)(i \<mapsto> h')) j = Some x' \<and> kills x \<le> kills x')"
    using h k by auto
  have c4: "\<forall>j x' t. ((handles u)(i \<mapsto> h')) j = Some x' \<longrightarrow> disconnectTimer x' = Some t \<longrightarrow>
        t < nextTimer u \<longrightarrow> (\<exists>x. handles u j = Some x \<and> disconnectTimer x = Some t)"
  proof (intro allI impI)
    fix j x' t assume x': "((handles u)(i \<mapsto> h')) j = Some x'" and dt: "disconnectTimer x' = Some t"
      and t: "t < nextTimer u"
    show "\<exists>x. handles u j = Some x \<and> disconnectTimer x = Some t"
    proof (cases "j = i")
      case True
      with x' have "x' = h'" by simp
      with dt d t have "disconnectTimer h = Some t" by auto
      with h True show ?thesis by simp
    next
      case False
      with x' dt show ?thesis by simp
    qed
  qed
  from c3 c4 show ?thesis unfolding grows_def by simp
qed

lemma grows_new_handle:
  assumes d: "disconnectTimer h' = None"
  shows "grows u (u\<lparr>nextId := Suc (nextId u), handles := (handles u)(nextId u \<mapsto> h')\<rparr>)"
proof -
  have c3: "\<forall>j x. j < nextId u \<longrightarrow> handles u j = Some x \<longrightarrow>
         (\<exists>x'. ((handles u)(nextId u \<mapsto> h')) j = Some x' \<and> kills x \<le> kills x')"
    by auto
  have c4: "\<forall>j x' t. ((handles u)(nextId u \<mapsto> h')) j = Some x' \<longrightarrow> disconnectTimer x' = Some t \<longrightarrow>
        t < nextTimer u \<longrightarrow> (\<exists>x. handles u j = Some x \<and> disconnectTimer x = Some t)"
  proof (intro allI impI)
    fix j x' t assume x': "((handles u)(nextId u \<mapsto> h')) j = Some x'" and dt: "disconnectTimer x' = Some t"
    show "\<exists>x. handles u j = Some x \<and> disconnectTimer x = Some t"
    proof (cases "j = nextId u")
      case True
      with x' have "x' = h'" by simp
      with dt d show ?thesis by simp
    next
      case False
      with x' dt show ?thesis by simp
    qed
  qed
  from c3 c4 show ?thesis unfolding grows_def by simp
qed

lemma grows_cong:
  "grows u v \<Longrightarrow> nextTimer v' = nextTimer v \<Longrightarrow> nextId v' = nextId v \<Longrightarrow> now v' = now v \<Longrightarrow>
   timers v' = timers v \<Longrightarrow> handles v' = handles v \<Longrightarrow> grows u v'"
  by (simp add: grows_def)

lemma grows_fork: "grows u (snd (fork wt e u))"
proof -
  have "grows u (u\<lparr>nextId := Suc (nextId u),
      handles := (handles u)(nextId u \<mapsto> new_handle (nextId u) wt e)\<rparr>)"
    by (rule grows_new_handle) (simp add: new_handle_def)
  then show ?thesis
    by (rule grows_cong) (simp_all add: fork_def Let_def)
qed

lemma grows_spawn: "grows u (spawnWorker u)"
proof -
  have "grows u (u\<lparr>nextId := Suc (nextId u),
      handles := (handles u)(nextId u \<mapsto>
        (new_handle (nextId u) (broker_type u) (currentEnvironment u))\<lparr>wired := True\<rparr>)\<rparr>)"
    by (rule grows_new_handle) (simp add: new_handle_def)
  then show ?thesis
    by (rule grows_cong) (simp_all add: spawnWorker_def fork_def Let_def new_handle_def)
qed

lemma grows_kill: "grows u (kill i u)"
proof (cases "handles u i")
  case None
  have "grows u u" by (rule grows_refl)
  then show ?thesis
    by (rule grows_cong) (simp_all add: kill_def upd_handle_def None fun_upd_idem)
next
  case (Some h)
  have "grows u (u\<lparr>handles := (handles u)(i \<mapsto> h\<lparr>kills := Suc (kills h)\<rparr>)\<rparr>)"
    using Some by (rule grows_handle) simp_all
  then show ?thesis
    by (rule grows_cong) (simp_all add: kill_def upd_handle_def Some)
qed

lemma grows_followup: "grows u (followup i u)"
  by (cases "handles u i") (simp_all add: followup_def grows_kill grows_refl)

lemma grows_timer_new:
  "grows u (u\<lparr>nextTimer := Suc (nextTimer u),
               timers := timers u @ [\<lparr>tid = nextTimer u, due = d, act = a, every = e\<rparr>]\<rparr>)"
  unfolding grows_def by auto

lemma grows_bounce: "grows u (bounceWorker k u)"
proof (cases "lookup_worker u k")
  case None
  then show ?thesis by (simp add: bounceWorker_missing grows_report)
next
  case (Some w)
  note bw = bounceWorker_found [OF Some]
  show ?thesis
  proof (cases "handles u (wid w)")
    case None
    have "grows u (u\<lparr>nextTimer := Suc (nextTimer u),
               timers := timers u @ [\<lparr>tid = nextTimer u, due = now u + 2000,
                                       act = DeadlineKill (wid w), every = None\<rparr>]\<rparr>)"
      by (rule grows_timer_new)
    then show ?thesis
      by (rule grows_cong) (simp_all add: bw None fun_upd_idem)
  next
    case (Some h)
    define v where "v = u\<lparr>handles := (handles u)(wid w \<mapsto> bounced (nextTimer u) h)\<rparr>"
    have g1: "grows u v"
      unfolding v_def using Some by (rule grows_handle) (simp_all add: bounced_def)
    have g2: "grows v (v\<lparr>nextTimer := Suc (nextTimer v),
               timers := timers v @ [\<lparr>tid = nextTimer v, due = now u + 2000,
                                       act = DeadlineKill (wid w), every = None\<rparr>]\<rparr>)"
      by (rule grows_timer_new)
    from grows_trans [OF g1 g2] show ?thesis
      by (rule grows_cong) (simp_all add: bw Some v_def)
  qed
qed

lemma grows_recycle_fold:
  "grows u (fold (\<lambda>k s'. if k \<in> set (map id_str (registry s')) \<and> 0 \<le> indexOf (workerIds s') k
                               then bounceWorker k s' else s') ks u)"
proof (induction ks arbitrary: u)
  case Nil
  then show ?case by (simp add: grows_refl)
next
  case (Cons k ks)
  let ?F = "\<lambda>k s'. if k \<in> set (map id_str (registry s')) \<and> 0 \<le> indexOf (workerIds s') k
                               then bounceWorker k s' else s'"
  have "grows u (?F k u)" by (simp add: grows_bounce grows_refl)
  from grows_trans [OF this Cons.IH [of "?F k u"]] show ?case by simp
qed

lemma grows_recycle: "grows u (recycleWorkers u)"
  unfolding recycleWorkers_def by (rule grows_recycle_fold)

lemma grows_drain: "grows u (drainWorkers u)"
  unfolding drainWorkers_def by (rule grows_trans [OF grows_gate grows_recycle])

lemma grows_funpow_spawn: "grows u ((spawnWorker ^^ n) u)"
proof (induction n)
  case 0
  then show ?case by (simp add: grows_refl)
next
  case (Suc n)
  from grows_trans [OF Suc grows_spawn] show ?case by simp
qed

lemma grows_resume: "grows u (resumeWorkers u)"
proof -
  have "grows (u\<lparr>drainOpen := False\<rparr>) (resumeWorkers u)"
    by (simp add: resumeWorkers_def Let_def spawn_loop_funpow grows_funpow_spawn)
  from grows_trans [OF grows_gate this] show ?thesis .
qed

lemma grows_call: "grows u (call c u)"
  by (cases c) (simp_all add: call_def grows_recycle grows_drain grows_resume)

lemma grows_calls: "grows u (fold call cs u)"
proof (induction cs arbitrary: u)
  case Nil
  then show ?case by (simp add: grows_refl)
next
  case (Cons c cs)
  from grows_trans [OF grows_call Cons.IH] show ?case by simp
qed

lemma grows_notify: "grows u (notify L e u)"
  unfolding notify_def by (rule grows_trans [OF grows_emit grows_calls])

lemma grows_exit_observer: "grows u (exit_observer L h c g u)"
proof -
  have r: "grows u (exit_removed h u)" by (rule grows_exit_removed)
  have n: "\<And>e. grows u (notify L e (exit_removed h u))"
    by (rule grows_trans [OF r grows_notify])
  have n2: "\<And>e x. grows u (notify L e (report x (exit_removed h u)))"
    by (rule grows_trans [OF grows_trans [OF r grows_report] grows_notify])
  have s1: "\<And>e. grows u (spawnWorker (notify L e (exit_removed h u)))"
    by (rule grows_trans [OF n grows_spawn])
  have s2: "\<And>e x. grows u (spawnWorker (notify L e (report x (exit_removed h u))))"
    by (rule grows_trans [OF n2 grows_spawn])
  show ?thesis
    unfolding exit_observer_def Let_def using n s1 s2 by simp
qed

lemma grows_message_observer: "message_observer L h m u = Inr u' \<Longrightarrow> grows u u'"
  by (auto simp: message_observer_def grows_notify split: if_splits sum.splits)

lemma grows_step:
  assumes st: "step L u a = Inr u'"
    and na: "\<forall>i. a \<noteq> Disconnect i" "\<forall>t. a \<noteq> Fire t" "\<forall>d. a \<noteq> Advance d"
  shows "grows u u'"
proof (cases a)
  case (Exit i c g)
  from st Exit obtain h where h: "handles u i = Some h" and nd: "\<not> dead h"
    by (auto simp: step_def split: option.splits if_splits)
  define h' where "h' = h\<lparr>dead := True, exitedAfterDisconnect := Some (exitedAfterDisconnect h = Some True)\<rparr>"
  define u0 where "u0 = u\<lparr>handles := (handles u)(i \<mapsto> h')\<rparr>"
  have g0: "grows u u0"
    unfolding u0_def using h by (rule grows_handle) (simp_all add: h'_def)
  show ?thesis
  proof (cases "wired h")
    case True
    with st Exit h nd have "u' = exit_observer L h' c g u0"
      by (simp add: step_def Let_def u0_def h'_def)
    with grows_trans [OF g0 grows_exit_observer] show ?thesis by simp
  next
    case False
    with st Exit h nd have "u' = u0"
      by (simp add: step_def Let_def u0_def h'_def)
    with g0 show ?thesis by simp
  qed
next
  case (Disconnect i)
  with na show ?thesis by simp
next
  case (WorkerError i e)
  with st have "u' = u \<or> u' = report (WorkerErrorReport (broker_type u @ '': Worker error!'') e) u"
    by (auto simp: step_def on_error_def split: option.splits if_splits)
  then show ?thesis using grows_refl grows_report by auto
next
  case (Message i m)
  with st show ?thesis
    by (auto simp: step_def grows_refl split: option.splits if_splits sum.splits
        dest: grows_message_observer)
next
  case RecycleWorkers
  with st show ?thesis by (auto simp: step_def grows_recycle)
next
  case DrainWorkers
  with st show ?thesis by (auto simp: step_def grows_drain)
next
  case ResumeWorkers
  with st show ?thesis by (auto simp: step_def grows_resume)
next
  case (Fire t)
  with na show ?thesis by simp
next
  case (Advance d)
  with na show ?thesis by simp
next
  case (ForeignFork wt e)
  with st show ?thesis by (auto simp: step_def grows_fork)
next
  case (Unregister i)
  with st have "u' = u \<or> u' = u\<lparr>registry := removeAll i (registry u)\<rparr>"
    by (auto simp: step_def split: option.splits if_splits)
  then show ?thesis using grows_refl by (auto intro: grows_same)
next
  case (SetGracefulShutdown b)
  with st have "u' = u\<lparr>gracefulShutdown := b\<rparr>" by (simp add: step_def)
  then show ?thesis by (simp add: grows_same)
next
  case (SelfDisconnect i)
  with st obtain h where h: "handles u i = Some h"
    and u': "u' = u\<lparr>handles := (handles u)(i \<mapsto> h\<lparr>exitedAfterDisconnect := Some True\<rparr>)\<rparr>"
    by (auto simp: step_def split: option.splits if_splits)
  show ?thesis unfolding u' using h by (rule grows_handle) simp_all
qed


lemma grows_run_timer: "grows u (run_timer a u)"
  by (cases a) (simp_all add: run_timer_def deadline_expired_def grows_kill grows_followup grows_recycle)

lemma grows_watch:
  assumes g: "grows u u'" and w: "watch t i D k0 u"
  shows "watch t i D k0 u'"
proof -
  from g have g1: "nextTimer u \<le> nextTimer u'" "nextId u \<le> nextId u'" "now u' = now u"
    and g2: "\<And>x. tid x < nextTimer u \<Longrightarrow> (x \<in> set (timers u')) = (x \<in> set (timers u))"
    and g3: "\<And>j h. j < nextId u \<Longrightarrow> handles u j = Some h \<Longrightarrow>
         \<exists>h'. handles u' j = Some h' \<and> kills h \<le> kills h'"
    and g4: "\<And>j h' t. handles u' j = Some h' \<Longrightarrow> disconnectTimer h' = Some t \<Longrightarrow> t < nextTimer u \<Longrightarrow>
         \<exists>h. handles u j = Some h \<and> disconnectTimer h = Some t"
    by (simp_all add: grows_def)
  from w have w1: "t < nextTimer u" and w2: "i < nextId u"
    and w3: "\<And>x. x \<in> set (timers u) \<Longrightarrow> tid x = t \<Longrightarrow>
         x = \<lparr>tid = t, due = D, act = DeadlineKill i, every = None\<rparr>"
    and w4: "\<And>j h. handles u j = Some h \<Longrightarrow> j \<noteq> i \<Longrightarrow> disconnectTimer h \<noteq> Some t"
    and w5: "\<exists>h. handles u i = Some h \<and>
           (((\<exists>x \<in> set (timers u). tid x = t) \<and> now u \<le> D \<and> k0 \<le> kills h) \<or> k0 < kills h)"
    by (simp_all add: watch_def)
  have c3: "\<forall>x \<in> set (timers u'). tid x = t \<longrightarrow>
         x = \<lparr>tid = t, due = D, act = DeadlineKill i, every = None\<rparr>"
  proof (intro ballI impI)
    fix x assume x: "x \<in> set (timers u')" and tx: "tid x = t"
    with w1 have "tid x < nextTimer u" by simp
    from g2 [OF this] x have "x \<in> set (timers u)" by simp
    from w3 [OF this tx] show "x = \<lparr>tid = t, due = D, act = DeadlineKill i, every = None\<rparr>" .
  qed
  have c4: "\<forall>j h. handles u' j = Some h \<longrightarrow> j \<noteq> i \<longrightarrow> disconnectTimer h \<noteq> Some t"
  proof (intro allI impI notI)
    fix j h assume h: "handles u' j = Some h" and j: "j \<noteq> i" and d: "disconnectTimer h = Some t"
    from g4 [OF h d w1] obtain h0 where "handles u j = Some h0" "disconnectTimer h0 = Some t"
      by blast
    with w4 [OF this(1) j] show False by simp
  qed
  from w5 obtain h where h: "handles u i = Some h"
    and hk: "((\<exists>x \<in> set (timers u). tid x = t) \<and> now u \<le> D \<and> k0 \<le> kills h) \<or> k0 < kills h"
    by blast
  from g3 [OF w2 h] obtain h' where h': "handles u' i = Some h'" "kills h \<le> kills h'" by blast
  have c5: "((\<exists>x \<in> set (timers u'). tid x = t) \<and> now u' \<le> D \<and> k0 \<le> kills h') \<or> k0 < kills h'"
  proof (cases "k0 < kills h")
    case True
    with h' show ?thesis by simp
  next
    case False
    with hk obtain x where x: "x \<in> set (timers u)" "tid x = t" and n: "now u \<le> D" "k0 \<le> kills h"
      by blast
    from x w1 have "tid x < nextTimer u" by simp
    from g2 [OF this] x have "x \<in> set (timers u')" by simp
    with x(2) n h' g1 show ?thesis by auto
  qed
  from w1 w2 g1 c3 c4 h' c5 show ?thesis
    unfolding watch_def by auto
qed

lemma watch_timers:
  assumes w: "watch t i D k0 u"
    and nt: "t < nextTimer u'" and ni: "nextId u' = nextId u" and hs: "handles u' = handles u"
    and nw: "now u' \<le> now u"
    and sub: "\<And>x. x \<in> set (timers u') \<Longrightarrow> tid x = t \<Longrightarrow> x \<in> set (timers u)"
    and keep: "\<And>x. x \<in> set (timers u) \<Longrightarrow> tid x = t \<Longrightarrow> x \<in> set (timers u')"
  shows "watch t i D k0 u'"
proof -
  from w have w2: "i < nextId u"
    and w3: "\<And>x. x \<in> set (timers u) \<Longrightarrow> tid x = t \<Longrightarrow>
         x = \<lparr>tid = t, due = D, act = DeadlineKill i, every = None\<rparr>"
    and w4: "\<forall>j h. handles u j = Some h \<longrightarrow> j \<noteq> i \<longrightarrow> disconnectTimer h \<noteq> Some t"
    and w5: "\<exists>h. handles u i = Some h \<and>
           (((\<exists>x \<in> set (timers u). tid x = t) \<and> now u \<le> D \<and> k0 \<le> kills h) \<or> k0 < kills h)"
    by (simp_all add: watch_def)
  have c3: "\<forall>x \<in> set (timers u'). tid x = t \<longrightarrow>
         x = \<lparr>tid = t, due = D, act = DeadlineKill i, every = None\<rparr>"
    using sub w3 by blast
  from w5 obtain h where h: "handles u i = Some h"
    and hk: "((\<exists>x \<in> set (timers u). tid x = t) \<and> now u \<le> D \<and> k0 \<le> kills h) \<or> k0 < kills h"
    by blast
  have c5: "((\<exists>x \<in> set (timers u'). tid x = t) \<and> now u' \<le> D \<and> k0 \<le> kills h) \<or> k0 < kills h"
  proof (cases "k0 < kills h")
    case True
    then show ?thesis by simp
  next
    case False
    with hk obtain x where x: "x \<in> set (timers u)" "tid x = t" and n: "now u \<le> D" "k0 \<le> kills h"
      by blast
    from keep [OF x] x(2) n nw show ?thesis by auto
  qed
  from nt w2 ni c3 w4 h c5 show ?thesis
    unfolding watch_def hs by auto
qed

lemma disconnect_watch:
  assumes w: "watch t i D k0 u" and j: "j \<noteq> i" and st: "step L u (Disconnect j) = Inr u'"
  shows "watch t i D k0 u'"
proof -
  from st obtain h where h: "handles u j = Some h"
    and u': "u' = (if wired h then on_disconnect h u else u)"
    by (auto simp: step_def split: option.splits)
  from w have w1: "t < nextTimer u"
    and w4: "\<And>j h. handles u j = Some h \<Longrightarrow> j \<noteq> i \<Longrightarrow> disconnectTimer h \<noteq> Some t"
    by (simp_all add: watch_def)
  from w4 [OF h j] have dt: "disconnectTimer h \<noteq> Some t" .
  show ?thesis
  proof (cases "wired h")
    case False
    with u' w show ?thesis by simp
  next
    case True
    define v where "v = on_disconnect h u"
    have f: "nextTimer v = Suc (nextTimer u)" "nextId v = nextId u" "handles v = handles u"
      "now v = now u"
      by (cases "disconnectTimer h";
          simp add: v_def on_disconnect_def setTimeout_def clearTimeout_def Let_def)+
    have tm: "timers v = (case disconnectTimer h of None \<Rightarrow> timers u
          | Some td \<Rightarrow> filter (\<lambda>x. tid x \<noteq> td) (timers u))
        @ [\<lparr>tid = nextTimer u, due = now u + 1000, act = FollowupKill (wid h), every = None\<rparr>]"
      by (cases "disconnectTimer h")
         (simp_all add: v_def on_disconnect_def setTimeout_def clearTimeout_def Let_def)
    have "watch t i D k0 v"
    proof (rule watch_timers [OF w])
      show "t < nextTimer v" using w1 f by simp
      show "nextId v = nextId u" using f by simp
      show "handles v = handles u" using f by simp
      show "now v \<le> now u" using f by simp
    next
      fix x assume "x \<in> set (timers v)" "tid x = t"
      with w1 show "x \<in> set (timers u)"
        by (cases "disconnectTimer h") (auto simp: tm)
    next
      fix x assume "x \<in> set (timers u)" "tid x = t"
      with dt show "x \<in> set (timers v)"
        by (cases "disconnectTimer h") (auto simp: tm)
    qed
    with True u' show ?thesis by (simp add: v_def)
  qed
qed

lemma advance_watch:
  assumes w: "watch t i D k0 u" and st: "step L u (Advance d) = Inr u'"
  shows "watch t i D k0 u'"
proof -
  from st have g: "\<forall>x \<in> set (timers u). now u + d \<le> due x" and u': "u' = u\<lparr>now := now u + d\<rparr>"
    by (auto simp: step_def list_all_iff split: if_splits)
  from w have w1: "t < nextTimer u" and w2: "i < nextId u"
    and w3: "\<forall>x \<in> set (timers u). tid x = t \<longrightarrow>
         x = \<lparr>tid = t, due = D, act = DeadlineKill i, every = None\<rparr>"
    and w4: "\<forall>j h. handles u j = Some h \<longrightarrow> j \<noteq> i \<longrightarrow> disconnectTimer h \<noteq> Some t"
    and w5: "\<exists>h. handles u i = Some h \<and>
           (((\<exists>x \<in> set (timers u). tid x = t) \<and> now u \<le> D \<and> k0 \<le> kills h) \<or> k0 < kills h)"
    by (simp_all add: watch_def)
  from w5 obtain h where h: "handles u i = Some h"
    and hk: "((\<exists>x \<in> set (timers u). tid x = t) \<and> now u \<le> D \<and> k0 \<le> kills h) \<or> k0 < kills h"
    by blast
  have c5: "((\<exists>x \<in> set (timers u). tid x = t) \<and> now u + d \<le> D \<and> k0 \<le> kills h) \<or> k0 < kills h"
  proof (cases "k0 < kills h")
    case True
    then show ?thesis by simp
  next
    case False
    with hk obtain x where x: "x \<in> set (timers u)" "tid x = t" and n: "k0 \<le> kills h"
      by blast
    from w3 x have "x = \<lparr>tid = t, due = D, act = DeadlineKill i, every = None\<rparr>" by blast
    then have "due x = D" by simp
    with g x(1) have "now u + d \<le> D" by auto
    with x n show ?thesis by auto
  qed
  from w1 w2 w3 w4 h c5 show ?thesis
    unfolding watch_def u' by auto
qed

lemma fire_watch:
  assumes w: "watch t i D k0 u" and st: "step L u (Fire t') = Inr u'"
  shows "watch t i D k0 u'"
proof -
  from st obtain x where fx: "find (\<lambda>x. tid x = t') (timers u) = Some x"
    and u': "u' = fire x u"
    by (auto simp: step_def split: option.splits if_splits)
  from fx have xin: "x \<in> set (timers u)" and tx: "tid x = t'"
    by (auto simp: find_Some_iff)
  from w have w1: "t < nextTimer u" and w2: "i < nextId u"
    and w3: "\<And>x. x \<in> set (timers u) \<Longrightarrow> tid x = t \<Longrightarrow>
         x = \<lparr>tid = t, due = D, act = DeadlineKill i, every = None\<rparr>"
    and w4: "\<forall>j h. handles u j = Some h \<longrightarrow> j \<noteq> i \<longrightarrow> disconnectTimer h \<noteq> Some t"
    and w5: "\<exists>h. handles u i = Some h \<and>
           (((\<exists>x \<in> set (timers u). tid x = t) \<and> now u \<le> D \<and> k0 \<le> kills h) \<or> k0 < kills h)"
    by (simp_all add: watch_def)
  show ?thesis
  proof (cases "t' = t")
    case True
    from w3 [OF xin] tx True have x: "x = \<lparr>tid = t, due = D, act = DeadlineKill i, every = None\<rparr>"
      by simp
    from w5 obtain h where h: "handles u i = Some h"
      and hk: "((\<exists>x \<in> set (timers u). tid x = t) \<and> now u \<le> D \<and> k0 \<le> kills h) \<or> k0 < kills h"
      by blast
    have f: "nextTimer u' = nextTimer u" "nextId u' = nextId u"
      "timers u' = filter (\<lambda>y. tid y \<noteq> t) (timers u)"
      "handles u' = (handles u)(i \<mapsto> h\<lparr>kills := Suc (kills h)\<rparr>)"
      unfolding u' x using h
      by (simp_all add: fire_def run_timer_def deadline_expired_def kill_def upd_handle_def
          clearTimeout_def)
    from hk have "k0 < Suc (kills h)" by auto
    with w1 w2 w4 show ?thesis
      unfolding watch_def f by auto
  next
    case False
    define mid where "mid = (case every x of None \<Rightarrow> clearTimeout (tid x) u
        | Some d \<Rightarrow> u\<lparr>timers := map (\<lambda>y. if tid y = tid x then y\<lparr>due := due y + d\<rparr> else y) (timers u)\<rparr>)"
    have fm: "nextTimer mid = nextTimer u" "nextId mid = nextId u" "handles mid = handles u"
      "now mid = now u"
      by (cases "every x"; simp add: mid_def clearTimeout_def)+
    have "watch t i D k0 mid"
    proof (rule watch_timers [OF w])
      show "t < nextTimer mid" using w1 fm by simp
      show "nextId mid = nextId u" using fm by simp
      show "handles mid = handles u" using fm by simp
      show "now mid \<le> now u" using fm by simp
    next
      fix y assume "y \<in> set (timers mid)" "tid y = t"
      with False tx show "y \<in> set (timers u)"
        by (cases "every x") (auto simp: mid_def clearTimeout_def split: if_splits)
    next
      fix y assume "y \<in> set (timers u)" "tid y = t"
      with False tx show "y \<in> set (timers mid)"
        by (cases "every x") (auto simp: mid_def clearTimeout_def image_iff intro!: bexI [of _ y])
    qed
    moreover have "u' = run_timer (act x) mid" by (simp add: u' fire_def mid_def)
    ultimately show ?thesis using grows_watch [OF grows_run_timer] by simp
  qed
qed

lemma step_watch:
  assumes w: "watch t i D k0 u" and st: "step L u a = Inr u'" and nd: "a \<noteq> Disconnect i"
  shows "watch t i D k0 u'"
proof (cases "(\<exists>j. a = Disconnect j) \<or> (\<exists>t'. a = Fire t') \<or> (\<exists>d. a = Advance d)")
  case True
  then consider j where "a = Disconnect j" | t' where "a = Fire t'" | d where "a = Advance d"
    by blast
  then show ?thesis
  proof cases
    case 1
    with nd have "j \<noteq> i" by simp
    from disconnect_watch [OF w this] st 1 show ?thesis by simp
  next
    case 2
    with fire_watch [OF w] st show ?thesis by simp
  next
    case 3
    with advance_watch [OF w] st show ?thesis by simp
  qed
next
  case False
  then have "\<forall>i. a \<noteq> Disconnect i" "\<forall>t. a \<noteq> Fire t" "\<forall>d. a \<noteq> Advance d" by auto
  from grows_step [OF st this] w show ?thesis by (rule grows_watch)
qed

lemma run_watch:
  "watch t i D k0 u \<Longrightarrow> run L u acts = Inr u' \<Longrightarrow> Disconnect i \<notin> set acts \<Longrightarrow> watch t i D k0 u'"
proof (induction acts arbitrary: u)
  case Nil
  then show ?case by simp
next
  case (Cons a acts)
  from Cons.prems(2) obtain u1 where u1: "step L u a = Inr u1" "run L u1 acts = Inr u'"
    by (auto split: sum.splits)
  from Cons.prems(3) have n: "a \<noteq> Disconnect i" "Disconnect i \<notin> set acts" by auto
  from step_watch [OF Cons.prems(1) u1(1) n(1)] have "watch t i D k0 u1" .
  from Cons.IH [OF this u1(2) n(2)] show ?case .
qed

lemma bounce_watch:
  assumes ok: "timers_ok s" and l: "lookup_worker s k = Some w" and h: "handles s (wid w) = Some w"
  shows "watch (nextTimer s) (wid w) (now s + 2000) (kills w) (bounceWorker k s)"
proof -
  from ok have o1: "\<And>x. x \<in> set (timers s) \<Longrightarrow> tid x < nextTimer s"
    and o2: "\<And>j h t. handles s j = Some h \<Longrightarrow> disconnectTimer h = Some t \<Longrightarrow> t < nextTimer s"
    and o3: "\<And>j h. handles s j = Some h \<Longrightarrow> j < nextId s"
    by (auto simp: timers_ok_def)
  define v where "v = bounceWorker k s"
  have f: "nextTimer v = Suc (nextTimer s)" "nextId v = nextId s" "now v = now s"
    "timers v = timers s @ [\<lparr>tid = nextTimer s, due = now s + 2000,
                              act = DeadlineKill (wid w), every = None\<rparr>]"
    "handles v = (handles s)(wid w \<mapsto> bounced (nextTimer s) w)"
    unfolding v_def bounceWorker_found [OF l] using h by simp_all
  have c3: "\<forall>x \<in> set (timers v). tid x = nextTimer s \<longrightarrow>
      x = \<lparr>tid = nextTimer s, due = now s + 2000, act = DeadlineKill (wid w), every = None\<rparr>"
  proof -
    have "\<forall>x \<in> set (timers s). tid x \<noteq> nextTimer s"
    proof
      fix x assume "x \<in> set (timers s)"
      from o1 [OF this] show "tid x \<noteq> nextTimer s" by simp
    qed
    then show ?thesis by (auto simp: f)
  qed
  have c4: "\<forall>j h. handles v j = Some h \<longrightarrow> j \<noteq> wid w \<longrightarrow> disconnectTimer h \<noteq> Some (nextTimer s)"
  proof (intro allI impI notI)
    fix j h0 assume a: "handles v j = Some h0" "j \<noteq> wid w" "disconnectTimer h0 = Some (nextTimer s)"
    then have "handles s j = Some h0" by (simp add: f)
    from o2 [OF this a(3)] show False by simp
  qed
  have c5: "handles v (wid w) = Some (bounced (nextTimer s) w)" "kills (bounced (nextTimer s) w) = kills w"
    by (simp_all add: f bounced_def)
  have c6: "\<exists>x \<in> set (timers v). tid x = nextTimer s" by (simp add: f)
  from o3 [OF h] c3 c4 c5 c6 show ?thesis
    unfolding watch_def v_def [symmetric] f(1,2,3) by auto
qed

lemma undisconnected_is_killed:
  assumes ok: "timers_ok s" and l: "lookup_worker s k = Some w" and h: "handles s (wid w) = Some w"
    and r: "run L (bounceWorker k s) acts = Inr u" and nd: "Disconnect (wid w) \<notin> set acts"
    and late: "now s + 2000 < now u"
  shows "\<exists>h. handles u (wid w) = Some h \<and> kills w < kills h"
proof -
  from run_watch [OF bounce_watch [OF ok l h] r nd]
  have "watch (nextTimer s) (wid w) (now s + 2000) (kills w) u" .
  with late show ?thesis by (auto simp: watch_def)
qed


lemma demo_timers_ok: "timers_ok demo_sys"
  by (simp add: timers_ok_def demo_sys_def demo_worker_def new_handle_def)

text \<open>
  C3, as the code has it. Bouncing a registered worker arms a one-shot deadline 2000 ms
  ahead and keeps its handle on the worker. In every run that goes on from there without
  a disconnect event of that worker, the worker has been force-killed once the clock is
  past the deadline. The deadline cannot fire before it is due, and when it fires it is
  removed and the worker is killed whatever its state. A disconnect event that arrives
  while the deadline is pending kills nothing: it clears the deadline, which can no
  longer fire, and arms a follow-up 1000 ms ahead; when that fires it kills the worker
  if it is not dead by then and leaves a dead one alone.
\<close>

theorem bounce_deadline_protocol:
  "timers_ok s \<Longrightarrow> lookup_worker s k = Some w \<Longrightarrow> handles s (wid w) = Some w \<Longrightarrow>
     timers (bounceWorker k s)
       = timers s @ [\<lparr>tid = nextTimer s, due = now s + 2000,
                       act = DeadlineKill (wid w), every = None\<rparr>] \<and>
     handles (bounceWorker k s) (wid w) = Some (bounced (nextTimer s) w) \<and>
     disconnectTimer (bounced (nextTimer s) w) = Some (nextTimer s) \<and>
     (run L (bounceWorker k s) acts = Inr u \<and> Disconnect (wid w) \<notin> set acts \<and>
      now s + 2000 < now u \<longrightarrow>
        (\<exists>h. handles u (wid w) = Some h \<and> kills w < kills h)) \<and>
     (find (\<lambda>x. tid x = t) (timers v) = Some x \<and> now v < due x \<longrightarrow>
        step L v (Fire t) = Inl NotEnabled) \<and>
     (find (\<lambda>x. tid x = t) (timers v)
          = Some \<lparr>tid = t, due = D, act = DeadlineKill i, every = None\<rparr> \<and>
      D \<le> now v \<and> handles v i = Some h \<longrightarrow>
        step L v (Fire t)
          = Inr (v\<lparr>timers := filter (\<lambda>x. tid x \<noteq> t) (timers v),
                   handles := (handles v)(i \<mapsto> h\<lparr>kills := Suc (kills h)\<rparr>)\<rparr>)) \<and>
     (handles v i = Some h \<and> wired h \<and> disconnectTimer h = Some t \<and> t < nextTimer v \<longrightarrow>
        step L v (Disconnect i) = Inr (on_disconnect h v) \<and>
        handles (on_disconnect h v) = handles v \<and>
        timers (on_disconnect h v)
          = filter (\<lambda>x. tid x \<noteq> t) (timers v)
              @ [\<lparr>tid = nextTimer v, due = now v + 1000,
                   act = FollowupKill (wid h), every = None\<rparr>] \<and>
        step L (on_disconnect h v) (Fire t) = Inl NotEnabled) \<and>
     (find (\<lambda>x. tid x = t) (timers v)
          = Some \<lparr>tid = t, due = D, act = FollowupKill i, every = None\<rparr> \<and>
      D \<le> now v \<and> handles v i = Some h \<longrightarrow>
        step L v (Fire t)
          = Inr (v\<lparr>timers := filter (\<lambda>x. tid x \<noteq> t) (timers v),
                   handles := (handles v)(i \<mapsto> if dead h then h else h\<lparr>kills := Suc (kills h)\<rparr>)\<rparr>))"
proof -
  assume ok: "timers_ok s" and l: "lookup_worker s k = Some w" and h: "handles s (wid w) = Some w"
  have a1: "timers (bounceWorker k s)
       = timers s @ [\<lparr>tid = nextTimer s, due = now s + 2000,
                       act = DeadlineKill (wid w), every = None\<rparr>]"
    and a2: "handles (bounceWorker k s) (wid w) = Some (bounced (nextTimer s) w)"
    unfolding bounceWorker_found [OF l] using h by simp_all
  have a3: "disconnectTimer (bounced (nextTimer s) w) = Some (nextTimer s)"
    by (simp add: bounced_def)
  have a4: "run L (bounceWorker k s) acts = Inr u \<and> Disconnect (wid w) \<notin> set acts \<and>
      now s + 2000 < now u \<longrightarrow>
        (\<exists>h. handles u (wid w) = Some h \<and> kills w < kills h)"
    using undisconnected_is_killed [OF ok l h] by blast
  have a5: "find (\<lambda>x. tid x = t) (timers v) = Some x \<and> now v < due x \<longrightarrow>
        step L v (Fire t) = Inl NotEnabled"
    by (simp add: step_def)
  have a6: "find (\<lambda>x. tid x = t) (timers v)
          = Some \<lparr>tid = t, due = D, act = DeadlineKill i, every = None\<rparr> \<and>
      D \<le> now v \<and> handles v i = Some h \<longrightarrow>
        step L v (Fire t)
          = Inr (v\<lparr>timers := filter (\<lambda>x. tid x \<noteq> t) (timers v),
                   handles := (handles v)(i \<mapsto> h\<lparr>kills := Suc (kills h)\<rparr>)\<rparr>)"
    by (simp add: step_def fire_def run_timer_def deadline_expired_def kill_def upd_handle_def
        clearTimeout_def)
  have a7: "handles v i = Some h \<and> wired h \<and> disconnectTimer h = Some t \<and> t < nextTimer v \<longrightarrow>
        step L v (Disconnect i) = Inr (on_disconnect h v) \<and>
        handles (on_disconnect h v) = handles v \<and>
        timers (on_disconnect h v)
          = filter (\<lambda>x. tid x \<noteq> t) (timers v)
              @ [\<lparr>tid = nextTimer v, due = now v + 1000,
                   act = FollowupKill (wid h), every = None\<rparr>] \<and>
        step L (on_disconnect h v) (Fire t) = Inl NotEnabled"
  proof (intro impI)
    assume p: "handles v i = Some h \<and> wired h \<and> disconnectTimer h = Some t \<and> t < nextTimer v"
    have gone: "find (\<lambda>x. tid x = t)
            (filter (\<lambda>x. tid x \<noteq> t) (timers v) @
             [\<lparr>tid = nextTimer v, due = now v + 1000,
                 act = FollowupKill (wid h), every = None\<rparr>]) = None"
      using p by (auto simp: find_None_iff)
    have tm: "timers (on_disconnect h v)
          = filter (\<lambda>x. tid x \<noteq> t) (timers v)
              @ [\<lparr>tid = nextTimer v, due = now v + 1000,
                   act = FollowupKill (wid h), every = None\<rparr>]"
      using p by (simp add: on_disconnect_def clearTimeout_def setTimeout_def)
    have hs: "handles (on_disconnect h v) = handles v"
      using p by (simp add: on_disconnect_def clearTimeout_def setTimeout_def)
    have st: "step L v (Disconnect i) = Inr (on_disconnect h v)"
      using p by (simp add: step_def)
    have nf: "step L (on_disconnect h v) (Fire t) = Inl NotEnabled"
      by (simp add: step_def tm gone)
    from st hs tm nf
    show "step L v (Disconnect i) = Inr (on_disconnect h v) \<and>
        handles (on_disconnect h v) = handles v \<and>
        timers (on_disconnect h v)
          = filter (\<lambda>x. tid x \<noteq> t) (timers v)
              @ [\<lparr>tid = nextTimer v, due = now v + 1000,
                   act = FollowupKill (wid h), every = None\<rparr>] \<and>
        step L (on_disconnect h v) (Fire t) = Inl NotEnabled"
      by simp
  qed
  have a8: "find (\<lambda>x. tid x = t) (timers v)
          = Some \<lparr>tid = t, due = D, act = FollowupKill i, every = None\<rparr> \<and>
      D \<le> now v \<and> handles v i = Some h \<longrightarrow>
        step L v (Fire t)
          = Inr (v\<lparr>timers := filter (\<lambda>x. tid x \<noteq> t) (timers v),
                   handles := (handles v)(i \<mapsto> if dead h then h else h\<lparr>kills := Suc (kills h)\<rparr>)\<rparr>)"
    by (simp add: step_def fire_def run_timer_def followup_def kill_def upd_handle_def
        clearTimeout_def fun_upd_idem)
  from a1 a2 a3 a4 a5 a6 a7 a8 show ?thesis by blast
qed

theorem bounce_deadline_protocol_witness:
  "timers_ok demo_sys
   \<and> lookup_worker demo_sys ''1'' = Some demo_worker
   \<and> handles demo_sys (wid demo_worker) = Some demo_worker
   \<and> timers (bounceWorker ''1'' demo_sys)
       = [\<lparr>tid = 0, due = 2000, act = DeadlineKill 1, every = None\<rparr>]
   \<and> handles (bounceWorker ''1'' demo_sys) 1 = Some (bounced 0 demo_worker)
   \<and> \<not> isl (run no_listeners (bounceWorker ''1'' demo_sys) [Advance 2000, Fire 0, Advance 1])
   \<and> Disconnect (wid demo_worker) \<notin> set [Advance 2000, Fire 0, Advance 1]
   \<and> now demo_sys + 2000
       < now (projr (run no_listeners (bounceWorker ''1'' demo_sys) [Advance 2000, Fire 0, Advance 1]))
   \<and> kills demo_worker
       < (case handles (projr (run no_listeners (bounceWorker ''1'' demo_sys)
                                 [Advance 2000, Fire 0, Advance 1])) 1 of
            Some h \<Rightarrow> kills h | None \<Rightarrow> 0)
   \<and> step no_listeners (bounceWorker ''1'' demo_sys) (Fire 0) = Inl NotEnabled
   \<and> wired (bounced 0 demo_worker)
   \<and> step no_listeners (bounceWorker ''1'' demo_sys) (Disconnect 1)
       = Inr (on_disconnect (bounced 0 demo_worker) (bounceWorker ''1'' demo_sys))
   \<and> timers (on_disconnect (bounced 0 demo_worker) (bounceWorker ''1'' demo_sys))
       = [\<lparr>tid = 1, due = 1000, act = FollowupKill 1, every = None\<rparr>]
   \<and> step no_listeners (on_disconnect (bounced 0 demo_worker) (bounceWorker ''1'' demo_sys)) (Fire 0)
       = Inl NotEnabled"
proof -
  let ?b = "bounceWorker ''1'' demo_sys"
  let ?acts = "[Advance 2000, Fire 0, Advance 1]"
  let ?u = "projr (run no_listeners ?b ?acts)"
  have l: "lookup_worker demo_sys ''1'' = Some demo_worker" by (rule demo_lookup)
  have h: "handles demo_sys (wid demo_worker) = Some demo_worker"
    by (simp add: demo_sys_def demo_worker_def new_handle_def)
  note inst = bounce_deadline_protocol [OF demo_timers_ok l h, where L = no_listeners]
  have w: "wid demo_worker = 1" "kills demo_worker = 0" "wired (bounced 0 demo_worker)"
    by (simp_all add: bounced_def demo_worker_def new_handle_def)
  have t0: "timers demo_sys = []" "nextTimer demo_sys = 0" "now demo_sys = 0"
    by (simp_all add: demo_sys_def)
  from inst [where acts = "[]"]
  have b0: "timers ?b = timers demo_sys @ [\<lparr>tid = nextTimer demo_sys, due = now demo_sys + 2000,
                       act = DeadlineKill (wid demo_worker), every = None\<rparr>]"
    "handles ?b (wid demo_worker) = Some (bounced (nextTimer demo_sys) demo_worker)"
    by blast+
  have b: "timers ?b = [\<lparr>tid = 0, due = 2000, act = DeadlineKill 1, every = None\<rparr>]"
    "handles ?b 1 = Some (bounced 0 demo_worker)"
    using b0 by (simp_all add: t0 w)
  have nb: "nextTimer ?b = 1" "now ?b = 0"
    unfolding bounceWorker_found [OF l] by (simp_all add: t0)
  have r0: "\<not> isl (run no_listeners ?b ?acts)" by code_simp
  then have r: "run no_listeners ?b ?acts = Inr ?u" by simp
  have nd: "Disconnect (wid demo_worker) \<notin> set ?acts" by simp
  have late: "now demo_sys + 2000 < now ?u" by code_simp
  from inst [where acts = ?acts and u = ?u] r nd late
  obtain h' where "handles ?u (wid demo_worker) = Some h'" "kills demo_worker < kills h'"
    by blast
  then have killed: "kills demo_worker < (case handles ?u 1 of Some h \<Rightarrow> kills h | None \<Rightarrow> 0)"
    by (simp add: w)
  have fx: "find (\<lambda>x. tid x = 0) (timers ?b)
        = Some \<lparr>tid = 0, due = 2000, act = DeadlineKill 1, every = None\<rparr>
      \<and> now ?b < due \<lparr>tid = 0, due = 2000, act = DeadlineKill 1, every = None\<rparr>"
    by (simp add: b nb)
  from inst [where v = ?b and t = 0
        and x = "\<lparr>tid = 0, due = 2000, act = DeadlineKill 1, every = None\<rparr>"] fx
  have early: "step no_listeners ?b (Fire 0) = Inl NotEnabled"
    by blast
  have pre: "handles ?b 1 = Some (bounced 0 demo_worker) \<and> wired (bounced 0 demo_worker)
      \<and> disconnectTimer (bounced 0 demo_worker) = Some 0 \<and> 0 < nextTimer ?b"
  proof (intro conjI)
    show "handles ?b 1 = Some (bounced 0 demo_worker)" by (rule b(2))
    show "wired (bounced 0 demo_worker)" by (rule w(3))
    show "disconnectTimer (bounced 0 demo_worker) = Some 0" by (simp add: bounced_def)
    show "0 < nextTimer ?b" by (simp add: nb)
  qed
  from inst [where v = ?b and i = 1 and h = "bounced 0 demo_worker" and t = 0] pre
  have d0: "step no_listeners ?b (Disconnect 1) = Inr (on_disconnect (bounced 0 demo_worker) ?b)"
    "timers (on_disconnect (bounced 0 demo_worker) ?b)
          = filter (\<lambda>x. tid x \<noteq> 0) (timers ?b)
              @ [\<lparr>tid = nextTimer ?b, due = now ?b + 1000,
                   act = FollowupKill (wid (bounced 0 demo_worker)), every = None\<rparr>]"
    "step no_listeners (on_disconnect (bounced 0 demo_worker) ?b) (Fire 0) = Inl NotEnabled"
    by blast+
  have wb: "wid (bounced 0 demo_worker) = 1" by (simp add: bounced_def w)
  have disc: "step no_listeners ?b (Disconnect 1) = Inr (on_disconnect (bounced 0 demo_worker) ?b)"
    "timers (on_disconnect (bounced 0 demo_worker) ?b)
       = [\<lparr>tid = 1, due = 1000, act = FollowupKill 1, every = None\<rparr>]"
    "step no_listeners (on_disconnect (bounced 0 demo_worker) ?b) (Fire 0) = Inl NotEnabled"
    using d0 by (simp_all add: b(1) nb wb)
  from demo_timers_ok l h b r0 nd late killed early w(3) disc show ?thesis by blast
qed

text \<open>
  C3, as stated, fails in its last part: after a disconnect 500 ms into the deadline, a
  follow-up is pending for time 1500, and when it fires on the still-running worker, the
  worker is killed. The disconnect was not the last action taken on that worker.
\<close>

theorem timely_disconnect_counterexample:
  "(case run no_listeners demo_sys [RecycleWorkers, Advance 500, Disconnect 1] of
      Inr s \<Rightarrow> map (\<lambda>x. (due x, act x)) (timers s) | Inl f \<Rightarrow> []) = [(1500, FollowupKill 1)]
   \<and> (case run no_listeners demo_sys [RecycleWorkers, Advance 500, Disconnect 1] of
      Inr s \<Rightarrow> map_option kills (handles s 1) | Inl f \<Rightarrow> None) = Some 0
   \<and> (case run no_listeners demo_sys
             [RecycleWorkers, Advance 500, Disconnect 1, Advance 1000, Fire 1] of
      Inr s \<Rightarrow> map_option kills (handles s 1) | Inl f \<Rightarrow> None) = Some 1"
  by code_simp

end
